theory Spec2Isabelle
  imports Main "HOL-Library.AList"
begin

section \<open>The remote store as the code sees it\<close>

text \<open>
  What \<^verbatim>\<open>Drive.Files.get(id, {fields: 'md5Checksum'})\<close> yields for a file: the
  call throws, or the metadata has no checksum (native document formats), or it has one.
\<close>

datatype md5_lookup = LookupFails | NoChecksum | Checksum string

text \<open>
  A \<^verbatim>\<open>GoogleAppsScript.Drive.File\<close>, with one field per getter the code calls.
  Timestamps are \<^verbatim>\<open>getTime()\<close> values (integral milliseconds).
\<close>

record DriveFile =
  getId :: string
  getName :: string
  getDateCreated :: int
  getSize :: nat
  isTrashed :: bool
  md5Checksum :: md5_lookup

datatype sort_mode = LAST_UPDATED | RANDOM

datatype keep_strategy = OLDEST | NEWEST | MOST_FILES | OTHER_STRATEGY

text \<open>
  \<^verbatim>\<open>RuntimeConfig\<close> (the version with the merge options). The millisecond values are
  taken as integers, as the timestamps they are compared with are; a property that
  \<^verbatim>\<open>parseFloat\<close> cannot read (NaN) is outside the model.
\<close>

record RuntimeConfig =
  ROOT_FOLDER_IDS :: "string list"
  EXCLUDED_FOLDER_IDS :: "string list"
  EXCLUDED_EXTENSIONS :: "string list"
  FOLDER_SORT_MODE :: sort_mode
  FILE_AGE_FILTER_DAYS :: int
  MERGE_DUPLICATE_FOLDERS :: bool
  MERGE_FOLDERS_RECURSIVE :: bool
  MERGE_KEEP_FOLDER_STRATEGY :: keep_strategy
  DRY_RUN :: bool
  DUPLICATION_WINDOW_MS :: int
  MAX_EXECUTION_TIME_MS :: int
  FILE_AGE_FILTER_MS :: int

section \<open>utils.ts\<close>

text \<open>\<^verbatim>\<open>String.prototype.lastIndexOf\<close> for a single character: \<open>-1\<close> when absent.\<close>

definition lastIndexOf :: "string \<Rightarrow> char \<Rightarrow> int" where
  "lastIndexOf s c =
     (if c \<in> set s
      then int (length s) - 1 - int (length (takeWhile (\<lambda>x. x \<noteq> c) (rev s)))
      else - 1)"

text \<open>
  \<^verbatim>\<open>toLowerCase\<close>. A \<open>char\<close> is a code unit below 256 (Latin-1): the capitals are A to Z
  and the letters from 192 to 222 other than the multiplication sign 215, each 32 below its
  small letter; every other code unit is left as it is.
\<close>

definition toLowerChar :: "char \<Rightarrow> char" where
  "toLowerChar c =
     (let n = (of_char c :: nat)
      in if (65 \<le> n \<and> n \<le> 90) \<or> (192 \<le> n \<and> n \<le> 222 \<and> n \<noteq> 215)
         then char_of (n + 32) else c)"

definition toLowerCase :: "string \<Rightarrow> string" where
  "toLowerCase s = map toLowerChar s"

text \<open>
  \<^verbatim>\<open>filename.slice(((filename.lastIndexOf('.') - 1) >>> 0) + 2).toLowerCase()\<close>: for a
  last dot at index \<open>k > 0\<close> the slice starts at \<open>k + 1\<close>; for no dot, or a dot at index
  0, the unsigned shift gives a start beyond the end of the name and the slice is empty.
\<close>

definition getFileExtension :: "string \<Rightarrow> string" where
  "getFileExtension filename =
     (let k = lastIndexOf filename (CHR ''.'')
      in if k > 0 then toLowerCase (drop (nat k + 1) filename) else [])"

definition isFileExcluded :: "DriveFile \<Rightarrow> string list \<Rightarrow> bool" where
  "isFileExcluded file excludedExtensions =
     (if length excludedExtensions = 0 then False
      else getFileExtension (getName file) \<in> set excludedExtensions)"

section \<open>processors.ts: processFolder\<close>

record FileInfo =
  fileId :: string
  name :: string
  created :: int
  fileSize :: nat
  fileObject :: DriveFile

definition mkFileInfo :: "DriveFile \<Rightarrow> FileInfo" where
  "mkFileInfo file =
     \<lparr>fileId = getId file, name = getName file, created = getDateCreated file,
      fileSize = getSize file, fileObject = file\<rparr>"

text \<open>
  The locals of \<^verbatim>\<open>processFolder\<close>. \<^verbatim>\<open>fileGroups\<close> is the object keyed by checksum,
  kept as an association list in insertion order (the order of \<^verbatim>\<open>for ... in\<close> over
  string keys). Two fields record effects: \<open>hashLookups\<close> the ids passed to
  \<^verbatim>\<open>Drive.Files.get\<close>, \<open>trashCalls\<close> the ids on which \<^verbatim>\<open>setTrashed(true)\<close> was
  called, both in call order; \<open>marked\<close> lists the files logged as
  \<^verbatim>\<open>[DELETING]\<close> or \<^verbatim>\<open>[WOULD DELETE]\<close>.
\<close>

record folder_run =
  fileGroups :: "(string \<times> FileInfo list) list"
  filesAnalyzed :: nat
  filesSkipped :: nat
  hashLookups :: "string list"
  filesDeleted :: nat
  spaceFreed :: nat
  trashCalls :: "string list"
  marked :: "FileInfo list"

definition initial_run :: folder_run where
  "initial_run =
     \<lparr>fileGroups = [], filesAnalyzed = 0, filesSkipped = 0, hashLookups = [],
      filesDeleted = 0, spaceFreed = 0, trashCalls = [], marked = []\<rparr>"

text \<open>
  \<^verbatim>\<open>if (!fileGroups[md5]) fileGroups[md5] = []; fileGroups[md5].push(info)\<close>. The keys
  are checksums (hexadecimal digests), none of which names an inherited property of the
  object.
\<close>

definition pushToGroup :: "string \<Rightarrow> FileInfo \<Rightarrow> (string \<times> FileInfo list) list
    \<Rightarrow> (string \<times> FileInfo list) list" where
  "pushToGroup md5 info groups =
     AList.update md5
       ((case map_of groups md5 of None \<Rightarrow> [] | Some g \<Rightarrow> g) @ [info]) groups"

text \<open>
  One iteration of the first loop (lines 143--192): trashed files are passed over, then
  the extension check, then the checksum lookup; \<^verbatim>\<open>md5Checksum || null\<close> turns an empty
  string into null.
\<close>

definition scanFile :: "RuntimeConfig \<Rightarrow> folder_run \<Rightarrow> DriveFile \<Rightarrow> folder_run" where
  "scanFile config st file =
     (if isTrashed file then st
      else if isFileExcluded file (EXCLUDED_EXTENSIONS config)
      then st\<lparr>filesSkipped := filesSkipped st + 1\<rparr>
      else
        (let st1 = st\<lparr>hashLookups := hashLookups st @ [getId file]\<rparr>
         in case md5Checksum file of
              LookupFails \<Rightarrow> st1\<lparr>filesSkipped := filesSkipped st1 + 1\<rparr>
            | NoChecksum \<Rightarrow> st1\<lparr>filesSkipped := filesSkipped st1 + 1\<rparr>
            | Checksum md5 \<Rightarrow>
                if md5 = [] then st1\<lparr>filesSkipped := filesSkipped st1 + 1\<rparr>
                else st1\<lparr>fileGroups := pushToGroup md5 (mkFileInfo file) (fileGroups st1),
                         filesAnalyzed := filesAnalyzed st1 + 1\<rparr>))"

definition scanFiles :: "RuntimeConfig \<Rightarrow> DriveFile list \<Rightarrow> folder_run" where
  "scanFiles config files = foldl (scanFile config) initial_run files"

text \<open>The inner loop over \<^verbatim>\<open>group[1 .. length - 1]\<close> (lines 210--227).\<close>

fun checkDuplicates :: "RuntimeConfig \<Rightarrow> FileInfo \<Rightarrow> FileInfo list \<Rightarrow> folder_run \<Rightarrow> folder_run" where
  "checkDuplicates config oldest [] st = st"
| "checkDuplicates config oldest (duplicate # rest) st =
     checkDuplicates config oldest rest
       (if created duplicate - created oldest < DUPLICATION_WINDOW_MS config
        then st\<lparr>marked := marked st @ [duplicate],
                trashCalls := (if \<not> DRY_RUN config
                               then trashCalls st @ [getId (fileObject duplicate)]
                               else trashCalls st),
                filesDeleted := filesDeleted st + 1,
                spaceFreed := spaceFreed st + fileSize duplicate\<rparr>
        else st)"

text \<open>
  The body of the loop over the groups (lines 199--228): a group of two or more is sorted
  by creation time (\<^verbatim>\<open>Array.prototype.sort\<close>, stable) and its first element is kept.
\<close>

definition processGroup :: "RuntimeConfig \<Rightarrow> folder_run \<Rightarrow> FileInfo list \<Rightarrow> folder_run" where
  "processGroup config st grp =
     (if length grp > 1
      then (case sort_key created grp of
              [] \<Rightarrow> st
            | oldest # duplicates \<Rightarrow> checkDuplicates config oldest duplicates st)
      else st)"

definition processFolder :: "DriveFile list \<Rightarrow> RuntimeConfig \<Rightarrow> folder_run" where
  "processFolder files config =
     (let st = scanFiles config files
      in foldl (processGroup config) st (map snd (fileGroups st)))"

text \<open>The store after the run: every file whose id received \<^verbatim>\<open>setTrashed(true)\<close>.\<close>

definition setTrashedAll :: "string list \<Rightarrow> DriveFile list \<Rightarrow> DriveFile list" where
  "setTrashedAll ids files =
     map (\<lambda>f. if getId f \<in> set ids then f\<lparr>isTrashed := True\<rparr> else f) files"

definition folderAfter :: "DriveFile list \<Rightarrow> RuntimeConfig \<Rightarrow> DriveFile list" where
  "folderAfter files config = setTrashedAll (trashCalls (processFolder files config)) files"

section \<open>folder-merger.ts\<close>

text \<open>
  A \<^verbatim>\<open>GoogleAppsScript.Drive.Folder\<close> with what the merger reads from it. A listing
  (\<^verbatim>\<open>getFiles\<close>) can hold trashed files: the code tests \<^verbatim>\<open>isTrashed\<close> on what it
  returns.
\<close>

datatype DriveFolder =
  DriveFolder (folderId: string) (folderName: string) (folderDateCreated: int)
    (folderLastUpdated: int) (getFiles: "DriveFile list") (getFolders: "DriveFolder list")

record FolderNode =
  folder :: DriveFolder
  nodeId :: string
  nodeName :: string
  parentId :: string
  level :: nat
  path :: string

fun countFilesRecursive :: "DriveFolder \<Rightarrow> nat" where
  "countFilesRecursive (DriveFolder i n c u files subFolders) =
     length files + sum_list (map countFilesRecursive subFolders)"

text \<open>
  \<^verbatim>\<open>Array.prototype.reduce\<close> without an initial value: the first element starts the
  accumulator; on an empty array it throws (\<open>None\<close>).
\<close>

definition reduce :: "('a \<Rightarrow> 'a \<Rightarrow> 'a) \<Rightarrow> 'a list \<Rightarrow> 'a option" where
  "reduce f xs = (case xs of [] \<Rightarrow> None | x # rest \<Rightarrow> Some (foldl f x rest))"

definition selectTargetFolder :: "FolderNode list \<Rightarrow> RuntimeConfig \<Rightarrow> FolderNode option" where
  "selectTargetFolder folders config =
     (case MERGE_KEEP_FOLDER_STRATEGY config of
        OLDEST \<Rightarrow>
          reduce (\<lambda>oldest current.
                    if folderDateCreated (folder current) < folderDateCreated (folder oldest)
                    then current else oldest) folders
      | NEWEST \<Rightarrow>
          reduce (\<lambda>newest current.
                    if folderLastUpdated (folder current) > folderLastUpdated (folder newest)
                    then current else newest) folders
      | MOST_FILES \<Rightarrow>
          map_option fst
            (reduce (\<lambda>mx current. if snd current > snd mx then current else mx)
               (map (\<lambda>f. (f, countFilesRecursive (folder f))) folders))
      | OTHER_STRATEGY \<Rightarrow> (case folders of [] \<Rightarrow> None | f # _ \<Rightarrow> Some f))"

subsection \<open>resolveFileConflict\<close>

datatype resolution = KEEP_EXISTING | KEEP_INCOMING | RENAME_INCOMING | ERROR

datatype reason = NoMd5Available | DifferentContent | OutsideWindow | ExistingIsOlder | IncomingIsOlder

record FileConflictResolution =
  existingFile :: DriveFile
  incomingFile :: DriveFile
  existingMd5 :: "string option"
  incomingMd5 :: "string option"
  resolutionOf :: resolution
  reasonOf :: reason

text \<open>\<^verbatim>\<open>getMd5Checksum\<close>: a failed lookup and an empty or missing checksum are null.\<close>

definition getMd5Checksum :: "DriveFile \<Rightarrow> string option" where
  "getMd5Checksum file =
     (case md5Checksum file of
        LookupFails \<Rightarrow> None
      | NoChecksum \<Rightarrow> None
      | Checksum s \<Rightarrow> if s = [] then None else Some s)"

definition resolveFileConflict :: "DriveFile \<Rightarrow> DriveFile \<Rightarrow> RuntimeConfig
    \<Rightarrow> FileConflictResolution" where
  "resolveFileConflict existing incoming config =
     (let eMd5 = getMd5Checksum existing;
          iMd5 = getMd5Checksum incoming;
          result = (\<lambda>r why. \<lparr>existingFile = existing, incomingFile = incoming,
                      existingMd5 = eMd5, incomingMd5 = iMd5,
                      resolutionOf = r, reasonOf = why\<rparr>)
      in if eMd5 = None \<or> iMd5 = None then result RENAME_INCOMING NoMd5Available
         else if eMd5 \<noteq> iMd5 then result RENAME_INCOMING DifferentContent
         else
           (let existingCreated = getDateCreated existing;
                incomingCreated = getDateCreated incoming;
                timeDiff = \<bar>incomingCreated - existingCreated\<bar>
            in if timeDiff > DUPLICATION_WINDOW_MS config
               then result RENAME_INCOMING OutsideWindow
               else if existingCreated \<le> incomingCreated
               then result KEEP_EXISTING ExistingIsOlder
               else result KEEP_INCOMING IncomingIsOlder))"

subsection \<open>generateUniqueName\<close>

text \<open>The decimal digits of a counter, as the template literal writes it.\<close>

fun digits :: "nat \<Rightarrow> string" where
  "digits n =
     (if n < 10 then [char_of (48 + n)] else digits (n div 10) @ [char_of (48 + n mod 10)])"

text \<open>\<^verbatim>\<open>`${name} (${counter})${ext}`\<close>\<close>

definition numbered :: "string \<Rightarrow> string \<Rightarrow> nat \<Rightarrow> string" where
  "numbered stem ext counter = stem @ '' ('' @ digits counter @ '')'' @ ext"

text \<open>The split of lines 415--425: at the last dot when its index is positive.\<close>

definition splitName :: "string \<Rightarrow> string \<times> string" where
  "splitName baseName =
     (let lastDot = lastIndexOf baseName (CHR ''.'')
      in if lastDot > 0 then (take (nat lastDot) baseName, drop (nat lastDot) baseName)
         else (baseName, []))"

text \<open>\<^verbatim>\<open>folder.getFilesByName(n)\<close> on a listing.\<close>

definition getFilesByName :: "DriveFile list \<Rightarrow> string \<Rightarrow> DriveFile list" where
  "getFilesByName listing n = filter (\<lambda>f. getName f = n) listing"

declare digits.simps [simp del]

text \<open>
  The loop of lines 427--433 ends because the names with different counters differ and the
  listing is finite; the two lemmas are what the termination proof needs.
\<close>

lemma digits_inject: "digits m = digits n \<Longrightarrow> m = n"
proof (induction m arbitrary: n rule: digits.induct)
  case (1 m)
  have ne: "digits k \<noteq> []" for k
    by (subst digits.simps) simp
  have one: "k < 10 \<Longrightarrow> length (digits k) = 1" for k
    by (subst digits.simps) simp
  have len: "k \<ge> 10 \<Longrightarrow> length (digits k) \<ge> 2" for k
    using ne [of "k div 10"] by (subst digits.simps) (simp add: Suc_le_eq)
  show ?case
  proof (cases "m < 10")
    case True
    show ?thesis
    proof (cases "n < 10")
      case True
      have "digits m = [char_of (48 + m)]" "digits n = [char_of (48 + n)]"
        using \<open>m < 10\<close> True by (subst digits.simps, simp)+
      with "1.prems" have "char_of (48 + m) = (char_of (48 + n) :: char)"
        by simp
      then have "48 + m = 48 + n"
        using \<open>m < 10\<close> True by (intro inj_onD [OF inj_on_char_of_nat]) simp_all
      then show ?thesis by simp
    next
      case False
      then have "length (digits n) \<ge> 2" using len by simp
      moreover have "length (digits m) = 1" using True one by simp
      ultimately show ?thesis using "1.prems" by simp
    qed
  next
    case False
    show ?thesis
    proof (cases "n < 10")
      case True
      have "length (digits m) \<ge> 2" using False len by simp
      moreover have "length (digits n) = 1" using True one by simp
      ultimately show ?thesis using "1.prems" by simp
    next
      case nf: False
      have em: "digits m = digits (m div 10) @ [char_of (48 + m mod 10)]"
        using False by (subst digits.simps) simp
      have en: "digits n = digits (n div 10) @ [char_of (48 + n mod 10)]"
        using nf by (subst digits.simps) simp
      from "1.prems" em en have a: "digits (m div 10) = digits (n div 10)"
        and b: "char_of (48 + m mod 10) = (char_of (48 + n mod 10) :: char)"
        by simp_all
      have "m div 10 = n div 10" using "1.IH" [OF False a] .
      moreover have "48 + m mod 10 = 48 + n mod 10"
        using b by (intro inj_onD [OF inj_on_char_of_nat]) simp_all
      then have "m mod 10 = n mod 10" by simp
      ultimately show ?thesis by (metis div_mult_mod_eq)
    qed
  qed
qed

lemma numbered_inject: "numbered stem ext m = numbered stem ext n \<Longrightarrow> m = n"
proof -
  assume "numbered stem ext m = numbered stem ext n"
  then have "digits m @ ('')'' @ ext) = digits n @ ('')'' @ ext)"
    by (simp add: numbered_def)
  then have "digits m = digits n" by (simp only: append_same_eq)
  then show ?thesis by (rule digits_inject)
qed

lemma finite_numbered: "finite {k. numbered stem ext k \<in> set names}"
proof -
  have "inj (numbered stem ext)" by (rule injI) (rule numbered_inject)
  then have "finite (numbered stem ext -` set names)"
    by (intro finite_vimageI) simp_all
  then show ?thesis by (simp add: vimage_def)
qed

text \<open>
  \<^verbatim>\<open>while (targetFolder.getFilesByName(newName).hasNext()) { counter++; ... }\<close>, over the
  names of the target's listing.
\<close>

function nextFreeName :: "string list \<Rightarrow> string \<Rightarrow> string \<Rightarrow> nat \<Rightarrow> string" where
  "nextFreeName names stem ext counter =
     (if numbered stem ext counter \<in> set names
      then nextFreeName names stem ext (counter + 1)
      else numbered stem ext counter)"
  by pat_completeness auto

termination
proof (relation "measure (\<lambda>(names, stem, ext, counter).
          card {k. counter \<le> k \<and> numbered stem ext k \<in> set names})")
  show "wf (measure (\<lambda>(names, stem, ext, counter).
          card {k. counter \<le> k \<and> numbered stem ext k \<in> set names}))"
    by simp
next
  fix names stem ext and counter :: nat
  assume present: "numbered stem ext counter \<in> set names"
  let ?S = "\<lambda>c. {k. c \<le> k \<and> numbered stem ext k \<in> set names}"
  have fin: "finite (?S counter)"
    by (rule finite_subset [OF _ finite_numbered [of stem ext names]]) auto
  have "counter \<in> ?S counter" and "counter \<notin> ?S (counter + 1)"
    using present by simp_all
  moreover have "?S (counter + 1) \<subseteq> ?S counter" by auto
  ultimately have "?S (counter + 1) \<subset> ?S counter" by blast
  then have "card (?S (counter + 1)) < card (?S counter)"
    using fin by (rule psubset_card_mono [rotated])
  then show "((names, stem, ext, counter + 1), (names, stem, ext, counter))
      \<in> measure (\<lambda>(names, stem, ext, counter).
          card {k. counter \<le> k \<and> numbered stem ext k \<in> set names})"
    by simp
qed

declare nextFreeName.simps [simp del]

definition generateUniqueName :: "string \<Rightarrow> DriveFile list \<Rightarrow> string" where
  "generateUniqueName baseName targetListing =
     (case splitName baseName of
        (stem, ext) \<Rightarrow> nextFreeName (map getName targetListing) stem ext 2)"

subsection \<open>mergeFolder\<close>

text \<open>
  The mutating calls of the store interface, in the order issued: on a file,
  \<^verbatim>\<open>moveTo(folder)\<close>, \<^verbatim>\<open>setName(n)\<close> and \<^verbatim>\<open>setTrashed(true)\<close>; on a folder,
  \<^verbatim>\<open>setTrashed(true)\<close>.
\<close>

datatype store_call =
  MoveTo string string
  | SetName string string
  | SetTrashed string
  | SetFolderTrashed string

text \<open>
  The state of one \<^verbatim>\<open>mergeFolder\<close> call: the listings of the source and the target
  folder, the calls issued so far and the three counters it returns. File ids are the
  identities of the store: a call on a file changes the entry with its id. A trashed file
  stays in its folder's listing; a moved file leaves the source listing and is appended to
  the target's.
\<close>

record merge_run =
  sourceListing :: "DriveFile list"
  targetListing :: "DriveFile list"
  calls :: "store_call list"
  filesMoved :: nat
  duplicatesHandled :: nat
  filesRenamed :: nat

definition trashIn :: "string \<Rightarrow> DriveFile list \<Rightarrow> DriveFile list" where
  "trashIn i listing = map (\<lambda>f. if getId f = i then f\<lparr>isTrashed := True\<rparr> else f) listing"

definition removeFrom :: "string \<Rightarrow> DriveFile list \<Rightarrow> DriveFile list" where
  "removeFrom i listing = filter (\<lambda>f. getId f \<noteq> i) listing"

text \<open>\<^verbatim>\<open>sourceFile.moveTo(targetNode.folder)\<close>\<close>

definition doMove :: "string \<Rightarrow> DriveFile \<Rightarrow> merge_run \<Rightarrow> merge_run" where
  "doMove targetId file st =
     st\<lparr>sourceListing := removeFrom (getId file) (sourceListing st),
        targetListing := targetListing st @ [file],
        calls := calls st @ [MoveTo (getId file) targetId]\<rparr>"

text \<open>\<^verbatim>\<open>sourceFile.setTrashed(true)\<close>\<close>

definition doTrashSource :: "DriveFile \<Rightarrow> merge_run \<Rightarrow> merge_run" where
  "doTrashSource file st =
     st\<lparr>sourceListing := trashIn (getId file) (sourceListing st),
        calls := calls st @ [SetTrashed (getId file)]\<rparr>"

text \<open>\<^verbatim>\<open>existingFile.setTrashed(true)\<close>\<close>

definition doTrashExisting :: "DriveFile \<Rightarrow> merge_run \<Rightarrow> merge_run" where
  "doTrashExisting file st =
     st\<lparr>targetListing := trashIn (getId file) (targetListing st),
        calls := calls st @ [SetTrashed (getId file)]\<rparr>"

text \<open>\<^verbatim>\<open>sourceFile.setName(newName); sourceFile.moveTo(targetNode.folder)\<close>\<close>

definition doRenameMove :: "string \<Rightarrow> DriveFile \<Rightarrow> string \<Rightarrow> merge_run \<Rightarrow> merge_run" where
  "doRenameMove targetId file newName st =
     st\<lparr>sourceListing := removeFrom (getId file) (sourceListing st),
        targetListing := targetListing st @ [file\<lparr>getName := newName\<rparr>],
        calls := calls st @ [SetName (getId file) newName, MoveTo (getId file) targetId]\<rparr>"

text \<open>The body of the loop over the source files (lines 265--323).\<close>

definition mergeFile :: "RuntimeConfig \<Rightarrow> string \<Rightarrow> merge_run \<Rightarrow> DriveFile \<Rightarrow> merge_run" where
  "mergeFile config targetId st sourceFile =
     (if isTrashed sourceFile then st
      else
        (case getFilesByName (targetListing st) (getName sourceFile) of
           [] \<Rightarrow>
             (if \<not> DRY_RUN config then doMove targetId sourceFile st else st)
               \<lparr>filesMoved := filesMoved st + 1\<rparr>
         | existing # others \<Rightarrow>
             (case resolutionOf (resolveFileConflict existing sourceFile config) of
                KEEP_EXISTING \<Rightarrow>
                  (if \<not> DRY_RUN config then doTrashSource sourceFile st else st)
                    \<lparr>duplicatesHandled := duplicatesHandled st + 1\<rparr>
              | KEEP_INCOMING \<Rightarrow>
                  (if \<not> DRY_RUN config
                   then doMove targetId sourceFile (doTrashExisting existing st) else st)
                    \<lparr>duplicatesHandled := duplicatesHandled st + 1\<rparr>
              | RENAME_INCOMING \<Rightarrow>
                  (let newName = generateUniqueName (getName sourceFile) (targetListing st)
                   in (if \<not> DRY_RUN config then doRenameMove targetId sourceFile newName st
                       else st)
                        \<lparr>filesRenamed := filesRenamed st + 1\<rparr>)
              | ERROR \<Rightarrow> st)))"

text \<open>The state at the start of \<^verbatim>\<open>mergeFolder\<close>: the two listings, no call, zero counters.\<close>

definition startOfMerge :: "DriveFile list \<Rightarrow> DriveFile list \<Rightarrow> merge_run" where
  "startOfMerge sourceFiles targetFiles =
     \<lparr>sourceListing = sourceFiles, targetListing = targetFiles, calls = [],
      filesMoved = 0, duplicatesHandled = 0, filesRenamed = 0\<rparr>"

text \<open>
  \<^verbatim>\<open>mergeFolder\<close>: the iterator \<^verbatim>\<open>sourceNode.folder.getFiles()\<close> is taken before the
  loop, so the loop runs over the source listing as it was at the start.
\<close>

definition mergeFolder :: "DriveFile list \<Rightarrow> string \<Rightarrow> DriveFile list \<Rightarrow> RuntimeConfig
    \<Rightarrow> merge_run" where
  "mergeFolder sourceFiles targetId targetFiles config =
     foldl (mergeFile config targetId) (startOfMerge sourceFiles targetFiles) sourceFiles"

subsection \<open>mergeDuplicateFolders: the loop over the source folders of one group\<close>

record MergeStats =
  foldersScanned :: nat
  duplicateGroupsFound :: nat
  foldersMerged :: nat
  filesMovedDuringMerge :: nat
  filesDuplicatedDuringMerge :: nat
  filesRenamedDuringMerge :: nat
  emptyFoldersDeleted :: nat

text \<open>
  What the loop of lines 107--128 carries: the statistics, the target's listing (every
  source is merged into the same target) and the calls issued.
\<close>

record group_run =
  stats :: MergeStats
  targetNow :: "DriveFile list"
  issued :: "store_call list"

text \<open>\<^verbatim>\<open>isFolderEmpty\<close> on the source after its merge: no file and no subfolder listed.\<close>

definition isFolderEmpty :: "DriveFile list \<Rightarrow> DriveFolder list \<Rightarrow> bool" where
  "isFolderEmpty files subFolders \<longleftrightarrow> files = [] \<and> subFolders = []"

definition mergeSource :: "RuntimeConfig \<Rightarrow> string \<Rightarrow> group_run \<Rightarrow> FolderNode \<Rightarrow> group_run" where
  "mergeSource config targetId st sourceFolder =
     (let mergeResult = mergeFolder (getFiles (folder sourceFolder)) targetId (targetNow st) config;
          s1 = (stats st)
                 \<lparr>filesMovedDuringMerge :=
                    filesMovedDuringMerge (stats st) + filesMoved mergeResult,
                  filesDuplicatedDuringMerge :=
                    filesDuplicatedDuringMerge (stats st) + duplicatesHandled mergeResult,
                  filesRenamedDuringMerge :=
                    filesRenamedDuringMerge (stats st) + filesRenamed mergeResult\<rparr>;
          empty = isFolderEmpty (sourceListing mergeResult) (getFolders (folder sourceFolder));
          s2 = (if empty then s1\<lparr>emptyFoldersDeleted := emptyFoldersDeleted s1 + 1\<rparr> else s1);
          trashFolder = (if empty \<and> \<not> DRY_RUN config
                         then [SetFolderTrashed (nodeId sourceFolder)] else [])
      in \<lparr>stats = s2\<lparr>foldersMerged := foldersMerged s2 + 1\<rparr>,
          targetNow = targetListing mergeResult,
          issued = issued st @ calls mergeResult @ trashFolder\<rparr>)"

text \<open>
  Steps 4 to 6 for one group of two or more folders (lines 99--128); \<open>None\<close> where
  \<^verbatim>\<open>selectTargetFolder\<close> throws.
\<close>

definition mergeGroup :: "RuntimeConfig \<Rightarrow> MergeStats \<Rightarrow> FolderNode list \<Rightarrow> group_run option" where
  "mergeGroup config stats0 folders =
     (case selectTargetFolder folders config of
        None \<Rightarrow> None
      | Some targetFolder \<Rightarrow>
          (let sourceFolders = filter (\<lambda>f. nodeId f \<noteq> nodeId targetFolder) folders
           in Some (foldl (mergeSource config (nodeId targetFolder))
                      \<lparr>stats = stats0, targetNow = getFiles (folder targetFolder), issued = []\<rparr>
                      sourceFolders)))"

definition noStats :: MergeStats where
  "noStats =
     \<lparr>foldersScanned = 0, duplicateGroupsFound = 0, foldersMerged = 0,
      filesMovedDuringMerge = 0, filesDuplicatedDuringMerge = 0,
      filesRenamedDuringMerge = 0, emptyFoldersDeleted = 0\<rparr>"

section \<open>processors.ts: processRootFolder, and main.ts\<close>

text \<open>
  \<^verbatim>\<open>isFolderExcluded\<close>: the folder's own id, then the ids met walking up
  \<^verbatim>\<open>getParents()\<close>; \<open>ancestors\<close> is that chain for the folder at hand.
\<close>

definition isFolderExcluded :: "string \<Rightarrow> string list \<Rightarrow> string list \<Rightarrow> bool" where
  "isFolderExcluded fid ancestors excludedFolderIds =
     (if length excludedFolderIds = 0 then False
      else if fid \<in> set excludedFolderIds then True
      else (\<exists>a \<in> set ancestors. a \<in> set excludedFolderIds))"

record FolderInfo =
  infoFolder :: DriveFolder
  lastModified :: int
  infoName :: string

text \<open>
  The Fisher--Yates loop of lines 75--78, \<open>i\<close> running from \<open>length - 1\<close> down to 1;
  \<open>pick i\<close> stands for \<^verbatim>\<open>Math.floor(Math.random() * (i + 1))\<close>.
\<close>

fun shuffleFrom :: "(nat \<Rightarrow> nat) \<Rightarrow> nat \<Rightarrow> 'a list \<Rightarrow> 'a list" where
  "shuffleFrom pick 0 xs = xs"
| "shuffleFrom pick (Suc i) xs =
     (let j = pick (Suc i) mod (Suc i + 1)
      in shuffleFrom pick i (xs[Suc i := xs ! j, j := xs ! Suc i]))"

text \<open>
  The calls the top level makes, in order. The events are for the order of the phases;
  \<^verbatim>\<open>mergeDuplicateFolders\<close> has its event although no code path of \<^verbatim>\<open>main.ts\<close> or
  \<^verbatim>\<open>processors.ts\<close> calls it.
\<close>

datatype phase_call = CallMergeDuplicateFolders string | CallProcessFolder string

record ProcessingStats =
  foldersProcessed :: nat
  totalFolders :: nat
  statFilesAnalyzed :: nat
  statFilesSkipped :: nat
  statFilesDeleted :: nat
  statSpaceFreed :: nat

record root_run =
  rootStats :: ProcessingStats
  phaseCalls :: "phase_call list"
  trashed :: "string list"

text \<open>
  The clock and the random source are parameters: \<open>elapsedAt x\<close> is
  \<^verbatim>\<open>Date.now() - globalStartTime\<close> at the check made before the folder or root \<open>x\<close>.
\<close>

record environment =
  elapsedAt :: "string \<Rightarrow> int"
  pick :: "nat \<Rightarrow> nat"
  ancestorsOf :: "string \<Rightarrow> string list"
  getFolderById :: "string \<Rightarrow> DriveFolder option"

text \<open>The loop of lines 96--115; \<^verbatim>\<open>break\<close> at the first timeout.\<close>

fun processFolders :: "environment \<Rightarrow> RuntimeConfig \<Rightarrow> FolderInfo list \<Rightarrow> root_run \<Rightarrow> root_run" where
  "processFolders env config [] st = st"
| "processFolders env config (folderInfo # rest) st =
     (if elapsedAt env (folderId (infoFolder folderInfo)) > MAX_EXECUTION_TIME_MS config
      then st
      else
        (let folderStats = processFolder (getFiles (infoFolder folderInfo)) config;
             s = rootStats st
         in processFolders env config rest
              \<lparr>rootStats = s\<lparr>foldersProcessed := foldersProcessed s + 1,
                   statFilesAnalyzed := statFilesAnalyzed s + filesAnalyzed folderStats,
                   statFilesSkipped := statFilesSkipped s + filesSkipped folderStats,
                   statFilesDeleted := statFilesDeleted s + filesDeleted folderStats,
                   statSpaceFreed := statSpaceFreed s + spaceFreed folderStats\<rparr>,
               phaseCalls = phaseCalls st @ [CallProcessFolder (folderId (infoFolder folderInfo))],
               trashed = trashed st @ trashCalls folderStats\<rparr>))"

definition processRootFolder :: "environment \<Rightarrow> DriveFolder \<Rightarrow> RuntimeConfig \<Rightarrow> root_run" where
  "processRootFolder env rootFolder config =
     (let kept = filter (\<lambda>f. \<not> isFolderExcluded (folderId f)
                    (folderId rootFolder # ancestorsOf env (folderId rootFolder))
                    (EXCLUDED_FOLDER_IDS config))
                  (getFolders rootFolder);
          folders = map (\<lambda>f. \<lparr>infoFolder = f, lastModified = folderLastUpdated f,
                                 infoName = folderName f\<rparr>) kept;
          ordered = (if FOLDER_SORT_MODE config = RANDOM
                     then shuffleFrom (pick env) (length folders - 1) folders
                     else sort_key (\<lambda>f. - lastModified f) folders)
      in processFolders env config ordered
           \<lparr>rootStats = \<lparr>foldersProcessed = 0, totalFolders = length folders,
                          statFilesAnalyzed = 0, statFilesSkipped = 0,
                          statFilesDeleted = 0, statSpaceFreed = 0\<rparr>,
            phaseCalls = [], trashed = []\<rparr>)"

text \<open>
  \<^verbatim>\<open>getConfig\<close> on script properties already parsed: it throws on an empty list of roots.
\<close>

datatype failure = RootFolderIdsEmpty

definition getConfig :: "RuntimeConfig \<Rightarrow> failure + RuntimeConfig" where
  "getConfig props = (if length (ROOT_FOLDER_IDS props) = 0 then Inl RootFolderIdsEmpty else Inr props)"

text \<open>The loop over the roots (lines 130--155): stop at the global timeout, pass over a
  root that cannot be opened.\<close>

fun processRoots :: "environment \<Rightarrow> RuntimeConfig \<Rightarrow> string list \<Rightarrow> root_run \<Rightarrow> root_run" where
  "processRoots env config [] totalStats = totalStats"
| "processRoots env config (rootFolderId # rest) totalStats =
     (if elapsedAt env rootFolderId > MAX_EXECUTION_TIME_MS config then totalStats
      else
        (case getFolderById env rootFolderId of
           None \<Rightarrow> processRoots env config rest totalStats
         | Some rootFolder \<Rightarrow>
             (let r = processRootFolder env rootFolder config;
                  s = rootStats r; t = rootStats totalStats
              in processRoots env config rest
                   \<lparr>rootStats = t\<lparr>foldersProcessed := foldersProcessed t + foldersProcessed s,
                        totalFolders := totalFolders t + totalFolders s,
                        statFilesAnalyzed := statFilesAnalyzed t + statFilesAnalyzed s,
                        statFilesSkipped := statFilesSkipped t + statFilesSkipped s,
                        statFilesDeleted := statFilesDeleted t + statFilesDeleted s,
                        statSpaceFreed := statSpaceFreed t + statSpaceFreed s\<rparr>,
                    phaseCalls = phaseCalls totalStats @ phaseCalls r,
                    trashed = trashed totalStats @ trashed r\<rparr>)))"

definition cleanDuplicateAttachments :: "environment \<Rightarrow> RuntimeConfig \<Rightarrow> failure + root_run" where
  "cleanDuplicateAttachments env props =
     (case getConfig props of
        Inl e \<Rightarrow> Inl e
      | Inr config \<Rightarrow>
          Inr (processRoots env config (ROOT_FOLDER_IDS config)
                 \<lparr>rootStats = \<lparr>foldersProcessed = 0, totalFolders = 0,
                                statFilesAnalyzed = 0, statFilesSkipped = 0,
                                statFilesDeleted = 0, statSpaceFreed = 0\<rparr>,
                  phaseCalls = [], trashed = []\<rparr>))"

section \<open>Notions for stating the properties\<close>

text \<open>
  Auxiliary notions for the proofs: the window test of line 214, the files one group
  marks for deletion, the lookup \<^verbatim>\<open>fileGroups[k]\<close>, and the files of a folder listing that
  reach the group of checksum \<open>k\<close>.
\<close>

definition inWindow :: "RuntimeConfig \<Rightarrow> FileInfo \<Rightarrow> FileInfo \<Rightarrow> bool" where
  "inWindow config oldest duplicate \<longleftrightarrow>
     created duplicate - created oldest < DUPLICATION_WINDOW_MS config"

definition candidates :: "RuntimeConfig \<Rightarrow> FileInfo list \<Rightarrow> FileInfo list" where
  "candidates config grp =
     (if length grp > 1
      then (case sort_key created grp of
              [] \<Rightarrow> []
            | oldest # duplicates \<Rightarrow> filter (inWindow config oldest) duplicates)
      else [])"

definition lookupGroup :: "(string \<times> FileInfo list) list \<Rightarrow> string \<Rightarrow> FileInfo list" where
  "lookupGroup groups k = (case map_of groups k of None \<Rightarrow> [] | Some g \<Rightarrow> g)"

definition hashedAs :: "RuntimeConfig \<Rightarrow> string \<Rightarrow> DriveFile \<Rightarrow> bool" where
  "hashedAs config k file \<longleftrightarrow>
     \<not> isTrashed file \<and> \<not> isFileExcluded file (EXCLUDED_EXTENSIONS config)
     \<and> md5Checksum file = Checksum k"

definition groupOf :: "RuntimeConfig \<Rightarrow> DriveFile list \<Rightarrow> string \<Rightarrow> FileInfo list" where
  "groupOf config files k = map mkFileInfo (filter (hashedAs config k) files)"

text \<open>
  What each strategy compares (creation time, last update, recursive file count), and
  when it prefers one folder to another. An unknown strategy compares nothing.
\<close>

definition strategyValue :: "keep_strategy \<Rightarrow> FolderNode \<Rightarrow> int" where
  "strategyValue strategy f =
     (case strategy of
        OLDEST \<Rightarrow> folderDateCreated (folder f)
      | NEWEST \<Rightarrow> folderLastUpdated (folder f)
      | MOST_FILES \<Rightarrow> int (countFilesRecursive (folder f))
      | OTHER_STRATEGY \<Rightarrow> 0)"

definition preferred :: "keep_strategy \<Rightarrow> FolderNode \<Rightarrow> FolderNode \<Rightarrow> bool" where
  "preferred strategy a b =
     (case strategy of
        OLDEST \<Rightarrow> strategyValue strategy a < strategyValue strategy b
      | NEWEST \<Rightarrow> strategyValue strategy a > strategyValue strategy b
      | MOST_FILES \<Rightarrow> strategyValue strategy a > strategyValue strategy b
      | OTHER_STRATEGY \<Rightarrow> False)"

text \<open>
  The naming rule as the specification words it, for comparison with the code: the name is
  split at its last dot wherever that dot stands (a name without a dot has an empty
  extension), and the suffixes are tried on the stem.
\<close>

definition splitAtLastDot :: "string \<Rightarrow> string \<times> string" where
  "splitAtLastDot baseName =
     (let lastDot = lastIndexOf baseName (CHR ''.'')
      in if lastDot \<ge> 0 then (take (nat lastDot) baseName, drop (nat lastDot) baseName)
         else (baseName, []))"

definition uniqueNameAsWorded :: "string \<Rightarrow> DriveFile list \<Rightarrow> string" where
  "uniqueNameAsWorded baseName listing =
     (case splitAtLastDot baseName of
        (stem, ext) \<Rightarrow> nextFreeName (map getName listing) stem ext 2)"

text \<open>
  The decision the loop body of \<^verbatim>\<open>mergeFolder\<close> takes for a source file against a target
  listing: pass over a trashed file, move when no file of the name is listed, otherwise the
  resolution against the first namesake.
\<close>

datatype merge_decision = SkipTrashed | MoveNoConflict | Resolve resolution

definition decide :: "RuntimeConfig \<Rightarrow> DriveFile list \<Rightarrow> DriveFile \<Rightarrow> merge_decision" where
  "decide config listing sourceFile =
     (if isTrashed sourceFile then SkipTrashed
      else
        (case getFilesByName listing (getName sourceFile) of
           [] \<Rightarrow> MoveNoConflict
         | existing # others \<Rightarrow>
             Resolve (resolutionOf (resolveFileConflict existing sourceFile config))))"

text \<open>The counters and calls of a group's merge, side by side.\<close>

definition mergeSummary :: "group_run \<Rightarrow> nat \<times> nat \<times> nat \<times> nat \<times> store_call list" where
  "mergeSummary r =
     (filesMovedDuringMerge (stats r), filesDuplicatedDuringMerge (stats r),
      filesRenamedDuringMerge (stats r), emptyFoldersDeleted (stats r), issued r)"

section \<open>Concrete stores and configurations\<close>

text \<open>An untrashed file of 100 bytes, and a configuration with the defaults of \<^verbatim>\<open>getConfig\<close>
  apart from the duplication window (milliseconds) and the dry-run flag.\<close>

definition plainFile :: "string \<Rightarrow> string \<Rightarrow> int \<Rightarrow> md5_lookup \<Rightarrow> DriveFile" where
  "plainFile i n t h =
     \<lparr>getId = i, getName = n, getDateCreated = t, getSize = 100, isTrashed = False,
      md5Checksum = h\<rparr>"

definition configOf :: "int \<Rightarrow> bool \<Rightarrow> RuntimeConfig" where
  "configOf window dry =
     \<lparr>ROOT_FOLDER_IDS = [''root''], EXCLUDED_FOLDER_IDS = [], EXCLUDED_EXTENSIONS = [],
      FOLDER_SORT_MODE = LAST_UPDATED, FILE_AGE_FILTER_DAYS = 0,
      MERGE_DUPLICATE_FOLDERS = False, MERGE_FOLDERS_RECURSIVE = True,
      MERGE_KEEP_FOLDER_STRATEGY = OLDEST, DRY_RUN = dry,
      DUPLICATION_WINDOW_MS = window, MAX_EXECUTION_TIME_MS = 300000,
      FILE_AGE_FILTER_MS = 0\<rparr>"

definition hour :: int where
  "hour = 3600000"

text \<open>Three files of one checksum created at 0 h, 1 h and 30 h.\<close>

definition scenarioA :: "DriveFile list" where
  "scenarioA =
     [plainFile ''A'' ''a.pdf'' 0 (Checksum ''H1''),
      plainFile ''B'' ''b.pdf'' (1 * hour) (Checksum ''H1''),
      plainFile ''C'' ''c.pdf'' (30 * hour) (Checksum ''H1'')]"

text \<open>Two files of one checksum created exactly one window (24 h) apart.\<close>

definition boundaryPair :: "DriveFile list" where
  "boundaryPair =
     [plainFile ''A'' ''a.pdf'' 0 (Checksum ''H1''),
      plainFile ''B'' ''b.pdf'' (24 * hour) (Checksum ''H1'')]"





text \<open>A folder without subfolders, as a node of the scan.\<close>

definition leafNode :: "string \<Rightarrow> string \<Rightarrow> int \<Rightarrow> int \<Rightarrow> DriveFile list \<Rightarrow> FolderNode" where
  "leafNode i n c u files =
     \<lparr>folder = DriveFolder i n c u files [], nodeId = i, nodeName = n,
      parentId = ''root'', level = 1, path = ''root/'' @ n\<rparr>"

definition strategyConfig :: "keep_strategy \<Rightarrow> RuntimeConfig" where
  "strategyConfig s = (configOf (24 * hour) False)\<lparr>MERGE_KEEP_FOLDER_STRATEGY := s\<rparr>"

text \<open>Three folders of one name; the first two agree in creation time, update time and
  file count.\<close>

definition tiedFolders :: "FolderNode list" where
  "tiedFolders =
     [leafNode ''F1'' ''Acme'' 5 9 [plainFile ''x'' ''x.txt'' 0 NoChecksum],
      leafNode ''F2'' ''Acme'' 5 9 [plainFile ''y'' ''y.txt'' 0 NoChecksum],
      leafNode ''F3'' ''acme'' 7 8 []]"

text \<open>A target that already holds the name and its variants (2) to (4).\<close>

definition seededTarget :: "DriveFile list" where
  "seededTarget =
     [plainFile ''T1'' ''invoice.pdf'' 0 (Checksum ''H''),
      plainFile ''T2'' ''invoice (2).pdf'' 0 (Checksum ''H2''),
      plainFile ''T3'' ''invoice (3).pdf'' 0 (Checksum ''H3''),
      plainFile ''T4'' ''invoice (4).pdf'' 0 (Checksum ''H4'')]"



text \<open>
  Two sibling folders named \<^verbatim>\<open>Acme\<close>: the older one is empty, the other holds three files
  of one name, the first and the third of one content, the third created before the first.
\<close>

definition acmeGroup :: "FolderNode list" where
  "acmeGroup =
     [leafNode ''F1'' ''Acme'' 1 1 [],
      leafNode ''F2'' ''Acme'' 2 2
        [plainFile ''S1'' ''a.txt'' (10 * hour) (Checksum ''H1''),
         plainFile ''S2'' ''a.txt'' 0 (Checksum ''H2''),
         plainFile ''S3'' ''a.txt'' (5 * hour) (Checksum ''H1'')]]"

text \<open>
  A drive with one root holding two sibling folders named \<^verbatim>\<open>Acme\<close>, each with a copy of one
  file, and a configuration with folder merging enabled.
\<close>

definition acmeRoot :: DriveFolder where
  "acmeRoot =
     DriveFolder ''root'' ''Clients'' 0 0 []
       [DriveFolder ''F1'' ''Acme'' 1 10 [plainFile ''A'' ''a.pdf'' 0 (Checksum ''H1'')] [],
        DriveFolder ''F2'' ''Acme'' 2 20 [plainFile ''B'' ''a.pdf'' hour (Checksum ''H1'')] []]"

definition acmeDrive :: environment where
  "acmeDrive =
     \<lparr>elapsedAt = (\<lambda>x. 0), pick = (\<lambda>i. 0), ancestorsOf = (\<lambda>x. []),
      getFolderById = (\<lambda>x. if x = ''root'' then Some acmeRoot else None)\<rparr>"

definition mergingConfig :: RuntimeConfig where
  "mergingConfig = (configOf (24 * hour) False)\<lparr>MERGE_DUPLICATE_FOLDERS := True\<rparr>"

text \<open>
  A configuration with the file-age filter set to seven days, a clock reading of day 100,
  and a folder whose two files were created on day 0.
\<close>

definition ageFilterConfig :: RuntimeConfig where
  "ageFilterConfig =
     (configOf (24 * hour) False)
       \<lparr>FILE_AGE_FILTER_DAYS := 7, FILE_AGE_FILTER_MS := 7 * 24 * hour\<rparr>"

definition dayHundred :: int where
  "dayHundred = 100 * 24 * hour"

definition oldFiles :: "DriveFile list" where
  "oldFiles =
     [plainFile ''OLD1'' ''scan.pdf'' 0 (Checksum ''H1''),
      plainFile ''OLD2'' ''scan copy.pdf'' hour (Checksum ''H1'')]"

section \<open>Properties of processFolder\<close>

lemma checkDuplicates_marked:
  "marked (checkDuplicates config oldest ds st) = marked st @ filter (inWindow config oldest) ds"
  by (induction ds arbitrary: st) (simp_all add: inWindow_def)

lemma checkDuplicates_trashCalls:
  "trashCalls (checkDuplicates config oldest ds st) =
     trashCalls st @ (if DRY_RUN config then []
                      else map (\<lambda>d. getId (fileObject d)) (filter (inWindow config oldest) ds))"
  by (induction ds arbitrary: st) (simp_all add: inWindow_def)

lemma checkDuplicates_filesDeleted:
  "filesDeleted (checkDuplicates config oldest ds st) =
     filesDeleted st + length (filter (inWindow config oldest) ds)"
  by (induction ds arbitrary: st) (simp_all add: inWindow_def)

lemma checkDuplicates_spaceFreed:
  "spaceFreed (checkDuplicates config oldest ds st) =
     spaceFreed st + sum_list (map fileSize (filter (inWindow config oldest) ds))"
  by (induction ds arbitrary: st) (simp_all add: inWindow_def)

lemma checkDuplicates_scan:
  "fileGroups (checkDuplicates config oldest ds st) = fileGroups st"
  "filesAnalyzed (checkDuplicates config oldest ds st) = filesAnalyzed st"
  "filesSkipped (checkDuplicates config oldest ds st) = filesSkipped st"
  "hashLookups (checkDuplicates config oldest ds st) = hashLookups st"
  by (induction ds arbitrary: st) simp_all

lemma processGroup_marked:
  "marked (processGroup config st grp) = marked st @ candidates config grp"
  by (simp add: processGroup_def candidates_def checkDuplicates_marked split: list.splits)

lemma processGroup_trashCalls:
  "trashCalls (processGroup config st grp) =
     trashCalls st @ (if DRY_RUN config then []
                      else map (\<lambda>d. getId (fileObject d)) (candidates config grp))"
  by (simp add: processGroup_def candidates_def checkDuplicates_trashCalls split: list.splits)

lemma processGroup_filesDeleted:
  "filesDeleted (processGroup config st grp) = filesDeleted st + length (candidates config grp)"
  by (simp add: processGroup_def candidates_def checkDuplicates_filesDeleted split: list.splits)

lemma processGroup_spaceFreed:
  "spaceFreed (processGroup config st grp) =
     spaceFreed st + sum_list (map fileSize (candidates config grp))"
  by (simp add: processGroup_def candidates_def checkDuplicates_spaceFreed split: list.splits)

lemma processGroup_scan:
  "fileGroups (processGroup config st grp) = fileGroups st"
  "filesAnalyzed (processGroup config st grp) = filesAnalyzed st"
  "filesSkipped (processGroup config st grp) = filesSkipped st"
  "hashLookups (processGroup config st grp) = hashLookups st"
  by (simp_all add: processGroup_def checkDuplicates_scan split: list.splits)

lemma processGroups_marked:
  "marked (foldl (processGroup config) st gs) = marked st @ concat (map (candidates config) gs)"
  by (induction gs arbitrary: st) (simp_all add: processGroup_marked)

lemma processGroups_trashCalls:
  "trashCalls (foldl (processGroup config) st gs) =
     trashCalls st @ (if DRY_RUN config then []
        else map (\<lambda>d. getId (fileObject d)) (concat (map (candidates config) gs)))"
  by (induction gs arbitrary: st) (simp_all add: processGroup_trashCalls)

lemma processGroups_filesDeleted:
  "filesDeleted (foldl (processGroup config) st gs) =
     filesDeleted st + length (concat (map (candidates config) gs))"
  by (induction gs arbitrary: st) (simp_all add: processGroup_filesDeleted)

lemma processGroups_spaceFreed:
  "spaceFreed (foldl (processGroup config) st gs) =
     spaceFreed st + sum_list (map fileSize (concat (map (candidates config) gs)))"
  by (induction gs arbitrary: st) (simp_all add: processGroup_spaceFreed)

lemma processGroups_scan:
  "fileGroups (foldl (processGroup config) st gs) = fileGroups st"
  "filesAnalyzed (foldl (processGroup config) st gs) = filesAnalyzed st"
  "filesSkipped (foldl (processGroup config) st gs) = filesSkipped st"
  "hashLookups (foldl (processGroup config) st gs) = hashLookups st"
  by (induction gs arbitrary: st) (simp_all add: processGroup_scan)

lemma lookupGroup_pushToGroup:
  "lookupGroup (pushToGroup md5 info groups) k =
     (if k = md5 then lookupGroup groups k @ [info] else lookupGroup groups k)"
  by (simp add: lookupGroup_def pushToGroup_def update_conv')

lemma keys_pushToGroup:
  "fst ` set (pushToGroup md5 info groups) = insert md5 (fst ` set groups)"
  by (simp add: pushToGroup_def dom_update)

lemma distinct_pushToGroup:
  "distinct (map fst groups) \<Longrightarrow> distinct (map fst (pushToGroup md5 info groups))"
  by (simp add: pushToGroup_def distinct_update)

lemma scanFile_lookup:
  "lookupGroup (fileGroups (scanFile config st file)) k =
     lookupGroup (fileGroups st) k @
       (if k \<noteq> [] \<and> hashedAs config k file then [mkFileInfo file] else [])"
  by (auto simp: scanFile_def hashedAs_def lookupGroup_pushToGroup Let_def split: md5_lookup.splits)

lemma scanFile_distinct:
  "distinct (map fst (fileGroups st)) \<Longrightarrow> distinct (map fst (fileGroups (scanFile config st file)))"
  by (auto simp: scanFile_def Let_def distinct_pushToGroup split: md5_lookup.splits)

lemma scanFile_keys:
  "k \<in> fst ` set (fileGroups (scanFile config st file)) \<Longrightarrow>
     k \<in> fst ` set (fileGroups st) \<or> (k \<noteq> [] \<and> hashedAs config k file)"
  by (auto simp: scanFile_def Let_def keys_pushToGroup hashedAs_def split: md5_lookup.splits if_splits)

lemma scan_lookup:
  "lookupGroup (fileGroups (foldl (scanFile config) st files)) k =
     lookupGroup (fileGroups st) k @ (if k \<noteq> [] then groupOf config files k else [])"
  by (induction files arbitrary: st) (simp_all add: scanFile_lookup groupOf_def)

lemma scan_distinct:
  "distinct (map fst (fileGroups st)) \<Longrightarrow>
     distinct (map fst (fileGroups (foldl (scanFile config) st files)))"
  by (induction files arbitrary: st) (simp_all add: scanFile_distinct)

lemma scan_keys:
  "k \<in> fst ` set (fileGroups (foldl (scanFile config) st files)) \<Longrightarrow>
     k \<in> fst ` set (fileGroups st) \<or> (k \<noteq> [] \<and> groupOf config files k \<noteq> [])"
proof (induction files arbitrary: st)
  case Nil
  then show ?case by simp
next
  case (Cons f fs)
  from Cons.IH [of "scanFile config st f"] Cons.prems
  have "k \<in> fst ` set (fileGroups (scanFile config st f)) \<or> (k \<noteq> [] \<and> groupOf config fs k \<noteq> [])"
    by simp
  then show ?case
    using scanFile_keys [of k config st f] by (auto simp: groupOf_def)
qed

lemma scanFiles_distinct: "distinct (map fst (fileGroups (scanFiles config files)))"
  by (simp add: scanFiles_def scan_distinct initial_run_def)

lemma scanFiles_group:
  assumes "(k, g) \<in> set (fileGroups (scanFiles config files))"
  shows "g = groupOf config files k" and "g \<noteq> []" and "k \<noteq> []"
proof -
  have m: "map_of (fileGroups (scanFiles config files)) k = Some g"
    using assms scanFiles_distinct by simp
  have "k \<in> fst ` set (fileGroups (scanFiles config files))"
    using assms by force
  then have k: "k \<noteq> [] \<and> groupOf config files k \<noteq> []"
    using scan_keys [of k config initial_run files] by (simp add: scanFiles_def initial_run_def)
  have "lookupGroup (fileGroups (scanFiles config files)) k = groupOf config files k"
    using k by (simp add: scanFiles_def scan_lookup) (simp add: lookupGroup_def initial_run_def)
  then show "g = groupOf config files k" using m by (simp add: lookupGroup_def)
  then show "g \<noteq> []" using k by simp
  show "k \<noteq> []" using k by simp
qed

lemma processFolder_fileGroups:
  "fileGroups (processFolder files config) = fileGroups (scanFiles config files)"
  by (simp add: processFolder_def Let_def processGroups_scan)

lemma processFolder_marked:
  "marked (processFolder files config) =
     concat (map (candidates config) (map snd (fileGroups (scanFiles config files))))"
proof -
  have "marked (scanFiles config files) = []"
  proof -
    have "marked (foldl (scanFile config) st files) = marked st" for st
      by (induction files arbitrary: st)
        (simp_all add: scanFile_def Let_def split: md5_lookup.splits)
    then show ?thesis by (simp add: scanFiles_def initial_run_def)
  qed
  then show ?thesis by (simp add: processFolder_def Let_def processGroups_marked)
qed

lemma mkFileInfo_simps [simp]:
  "fileObject (mkFileInfo f) = f" "fileId (mkFileInfo f) = getId f"
  "created (mkFileInfo f) = getDateCreated f" "fileSize (mkFileInfo f) = getSize f"
  by (simp_all add: mkFileInfo_def)

lemma groupOf_member:
  "i \<in> set (groupOf config files k) \<Longrightarrow>
     \<exists>f \<in> set files. i = mkFileInfo f \<and> hashedAs config k f"
  by (auto simp: groupOf_def)

lemma same_id_same_file:
  "distinct (map getId files) \<Longrightarrow> f \<in> set files \<Longrightarrow> f' \<in> set files \<Longrightarrow>
     getId f = getId f' \<Longrightarrow> f = f'"
  by (auto simp: distinct_map dest: inj_onD)

lemma group_members_same:
  assumes "distinct (map getId files)"
      and "i \<in> set (groupOf config files k)" and "j \<in> set (groupOf config files k')"
      and "getId (fileObject i) = getId (fileObject j)"
  shows "i = j \<and> k = k'"
proof -
  obtain f where f: "f \<in> set files" "i = mkFileInfo f" "hashedAs config k f"
    using groupOf_member [OF assms(2)] by blast
  obtain f' where f': "f' \<in> set files" "j = mkFileInfo f'" "hashedAs config k' f'"
    using groupOf_member [OF assms(3)] by blast
  have "f = f'"
    using same_id_same_file [OF assms(1) f(1) f'(1)] assms(4) f(2) f'(2) by simp
  then show ?thesis
    using f f' by (simp add: hashedAs_def)
qed

lemma distinct_groupOf:
  assumes "distinct (map getId files)"
  shows "distinct (groupOf config files k)"
proof -
  have "distinct (map getId (filter (hashedAs config k) files))"
    using assms by (rule distinct_map_filter)
  then have "distinct (map fileId (groupOf config files k))"
    by (simp add: groupOf_def comp_def)
  then show ?thesis by (simp add: distinct_map)
qed

lemma candidates_sorted:
  "sort_key created g = oldest # rest \<Longrightarrow>
     candidates config g = filter (inWindow config oldest) rest"
proof -
  assume s: "sort_key created g = oldest # rest"
  have "length (sort_key created g) = length g" by simp
  then have "length g = Suc (length rest)" using s by simp
  then show ?thesis using s by (auto simp: candidates_def)
qed

lemma candidates_subset: "set (candidates config g) \<subseteq> set g"
proof (cases "sort_key created g")
  case Nil
  then have "length g = 0" using length_sort [of created g] by simp
  then show ?thesis by (simp add: candidates_def)
next
  case (Cons oldest rest)
  have "set g = set (sort_key created g)" by simp
  then show ?thesis using Cons candidates_sorted [OF Cons, of config] by auto
qed

lemma in_marked:
  "x \<in> set (marked (processFolder files config)) \<longleftrightarrow>
     (\<exists>(k, g) \<in> set (fileGroups (scanFiles config files)). x \<in> set (candidates config g))"
  by (force simp: processFolder_marked)

lemma processFolder_trashCalls:
  "trashCalls (processFolder files config) =
     (if DRY_RUN config then []
      else map (\<lambda>d. getId (fileObject d)) (marked (processFolder files config)))"
proof -
  have "trashCalls (scanFiles config files) = []"
  proof -
    have "trashCalls (foldl (scanFile config) st files) = trashCalls st" for st
      by (induction files arbitrary: st)
        (simp_all add: scanFile_def Let_def split: md5_lookup.splits)
    then show ?thesis by (simp add: scanFiles_def initial_run_def)
  qed
  then show ?thesis
    by (simp add: processFolder_marked) (simp add: processFolder_def Let_def processGroups_trashCalls)
qed

lemma marked_iff_candidate:
  assumes d: "distinct (map getId files)"
      and g: "(k, g) \<in> set (fileGroups (scanFiles config files))"
      and m: "m \<in> set g"
  shows "m \<in> set (marked (processFolder files config)) \<longleftrightarrow> m \<in> set (candidates config g)"
proof
  assume "m \<in> set (marked (processFolder files config))"
  then obtain k' g' where g': "(k', g') \<in> set (fileGroups (scanFiles config files))"
      and c: "m \<in> set (candidates config g')"
    by (auto simp: in_marked)
  have "m \<in> set g'" using c candidates_subset by blast
  then have "k = k'"
    using group_members_same [OF d, of m config k m k'] m scanFiles_group(1) [OF g]
      scanFiles_group(1) [OF g'] by simp
  then have "g = g'"
    using scanFiles_group(1) [OF g] scanFiles_group(1) [OF g'] by simp
  then show "m \<in> set (candidates config g)" using c by simp
next
  assume "m \<in> set (candidates config g)"
  then show "m \<in> set (marked (processFolder files config))"
    using g by (auto simp: in_marked)
qed

lemma trashed_id_iff_candidate:
  assumes d: "distinct (map getId files)"
      and g: "(k, g) \<in> set (fileGroups (scanFiles config files))"
      and m: "m \<in> set g"
  shows "getId (fileObject m) \<in> set (trashCalls (processFolder files config)) \<longleftrightarrow>
           \<not> DRY_RUN config \<and> m \<in> set (candidates config g)"
proof -
  have "getId (fileObject m) \<in> (\<lambda>d. getId (fileObject d)) ` set (marked (processFolder files config))
          \<longleftrightarrow> m \<in> set (marked (processFolder files config))"
  proof
    assume "getId (fileObject m) \<in> (\<lambda>d. getId (fileObject d)) ` set (marked (processFolder files config))"
    then obtain x where x: "x \<in> set (marked (processFolder files config))"
        and e: "getId (fileObject m) = getId (fileObject x)" by auto
    from x obtain k' g' where g': "(k', g') \<in> set (fileGroups (scanFiles config files))"
      and c: "x \<in> set (candidates config g')"
      by (auto simp: in_marked)
    have "x \<in> set g'" using c candidates_subset by blast
    then have "m = x"
      using group_members_same [OF d, of m config k x k'] m e scanFiles_group(1) [OF g]
        scanFiles_group(1) [OF g'] by simp
    then show "m \<in> set (marked (processFolder files config))" using x by simp
  qed auto
  then show ?thesis
    using marked_iff_candidate [OF d g m] by (simp add: processFolder_trashCalls)
qed

lemma sorted_head_least:
  assumes "sort_key created g = oldest # rest"
  shows "oldest \<in> set g" and "\<forall>m \<in> set g. created oldest \<le> created m"
    and "distinct g \<Longrightarrow> oldest \<notin> set rest"
proof -
  have s: "set g = set (oldest # rest)" using assms set_sort [of created g] by simp
  then show "oldest \<in> set g" by simp
  have "sorted (map created (sort_key created g))" by (rule sorted_sort_key)
  then have "\<forall>m \<in> set rest. created oldest \<le> created m"
    using assms by simp
  then show "\<forall>m \<in> set g. created oldest \<le> created m" using s by auto
  assume "distinct g"
  then have "distinct (sort_key created g)" by simp
  then show "oldest \<notin> set rest" using assms by simp
qed

lemma unchanged_file_after:
  assumes "f \<in> set files" and "getId f \<notin> set ids"
  shows "f \<in> set (setTrashedAll ids files)"
  using assms by (force simp: setTrashedAll_def)

text \<open>
  C1. Every group that the first loop of \<^verbatim>\<open>processFolder\<close> builds is non-empty, and the
  member that sorts first by creation time (a member created no later than any other) is
  never logged for deletion and never passed to \<^verbatim>\<open>setTrashed\<close>, whatever the dry-run flag
  says and for every group size; its file is in the folder, untrashed and unchanged, after
  the run.
\<close>

theorem earliest_member_never_trashed:
  assumes "distinct (map getId files)"
      and "(k, g) \<in> set (fileGroups (processFolder files config))"
  shows "g \<noteq> []
       \<and> hd (sort_key created g) \<in> set g
       \<and> (\<forall>m \<in> set g. created (hd (sort_key created g)) \<le> created m)
       \<and> hd (sort_key created g) \<notin> set (marked (processFolder files config))
       \<and> getId (fileObject (hd (sort_key created g)))
            \<notin> set (trashCalls (processFolder files config))
       \<and> fileObject (hd (sort_key created g)) \<in> set (folderAfter files config)
       \<and> \<not> isTrashed (fileObject (hd (sort_key created g)))"
proof -
  have g: "(k, g) \<in> set (fileGroups (scanFiles config files))"
    using assms(2) by (simp add: processFolder_fileGroups)
  have ne: "g \<noteq> []" and gk: "g = groupOf config files k"
    using scanFiles_group [OF g] by simp_all
  then have "sort_key created g \<noteq> []"
    using length_sort [of created g] by (metis length_0_conv)
  then obtain oldest rest where s: "sort_key created g = oldest # rest"
    by (cases "sort_key created g") auto
  have dg: "distinct g" using gk distinct_groupOf [OF assms(1)] by simp
  have mem: "oldest \<in> set g" and least: "\<forall>m \<in> set g. created oldest \<le> created m"
    and notrest: "oldest \<notin> set rest"
    using sorted_head_least [OF s] dg by simp_all
  have nc: "oldest \<notin> set (candidates config g)"
    using notrest by (simp add: candidates_sorted [OF s])
  have nm: "oldest \<notin> set (marked (processFolder files config))"
    using marked_iff_candidate [OF assms(1) g mem] nc by simp
  have nt: "getId (fileObject oldest) \<notin> set (trashCalls (processFolder files config))"
    using trashed_id_iff_candidate [OF assms(1) g mem] nc by simp
  obtain f where f: "f \<in> set files" "oldest = mkFileInfo f" "hashedAs config k f"
    using groupOf_member [of oldest config files k] mem gk by blast
  have "fileObject oldest \<in> set (folderAfter files config)"
    using unchanged_file_after [OF f(1)] nt f(2) by (simp add: folderAfter_def)
  moreover have "\<not> isTrashed (fileObject oldest)"
    using f by (simp add: hashedAs_def)
  ultimately show ?thesis
    using ne mem least nm nt s by simp
qed

theorem earliest_member_never_trashed_witness:
  "distinct (map getId scenarioA)
   \<and> (''H1'', map mkFileInfo scenarioA)
        \<in> set (fileGroups (processFolder scenarioA (configOf (24 * hour) False)))
   \<and> ''A'' \<notin> set (trashCalls (processFolder scenarioA (configOf (24 * hour) False)))
   \<and> plainFile ''A'' ''a.pdf'' 0 (Checksum ''H1'')
        \<in> set (folderAfter scenarioA (configOf (24 * hour) False))"
proof -
  have h1: "distinct (map getId scenarioA)"
    by (simp add: scenarioA_def plainFile_def)
  have h2: "(''H1'', map mkFileInfo scenarioA)
              \<in> set (fileGroups (processFolder scenarioA (configOf (24 * hour) False)))"
    by code_simp
  have e: "hd (sort_key created (map mkFileInfo scenarioA))
             = mkFileInfo (plainFile ''A'' ''a.pdf'' 0 (Checksum ''H1''))"
    by (simp add: scenarioA_def plainFile_def mkFileInfo_def hour_def)
  show ?thesis
    using earliest_member_never_trashed [OF h1 h2] h1 h2
    by (simp add: e) (simp add: plainFile_def)
qed

text \<open>
  C3 at a failing input. Two files of one checksum created exactly one duplication window
  apart: the distance of the later one does not exceed the window, and the merge path
  (\<^verbatim>\<open>resolveFileConflict\<close>, whose test is \<^verbatim>\<open>timeDiff > DUPLICATION_WINDOW_MS\<close>) takes the
  same pair as duplicates inside the window; \<^verbatim>\<open>processFolder\<close>, whose test of line 214 is a
  strict \<open><\<close>, marks nothing and trashes nothing.
\<close>

theorem window_boundary_member_retained:
  "getDateCreated (plainFile ''B'' ''b.pdf'' (24 * hour) (Checksum ''H1''))
     - getDateCreated (plainFile ''A'' ''a.pdf'' 0 (Checksum ''H1''))
     = DUPLICATION_WINDOW_MS (configOf (24 * hour) False)
   \<and> marked (processFolder boundaryPair (configOf (24 * hour) False)) = []
   \<and> trashCalls (processFolder boundaryPair (configOf (24 * hour) False)) = []
   \<and> filesDeleted (processFolder boundaryPair (configOf (24 * hour) False)) = 0
   \<and> resolutionOf (resolveFileConflict (plainFile ''A'' ''a.pdf'' 0 (Checksum ''H1''))
         (plainFile ''B'' ''b.pdf'' (24 * hour) (Checksum ''H1'')) (configOf (24 * hour) False))
       = KEEP_EXISTING"
  by code_simp

text \<open>
  The window test of \<^verbatim>\<open>processFolder\<close> on every input, the boundary included. In a group
  sorted ascending by creation time, a member other than the first
  is marked for deletion if and only if its creation time minus that of the group's first
  member is strictly less than the duplication window, and it is passed to
  \<^verbatim>\<open>setTrashed\<close> if and only if, in addition, dry-run is off; the comparison is always with
  the group's first member. A member at a distance equal to or greater than the window is
  retained.
\<close>

theorem trashed_iff_strictly_inside_window:
  assumes "distinct (map getId files)"
      and "(k, g) \<in> set (fileGroups (processFolder files config))"
      and "sort_key created g = oldest # rest"
      and "m \<in> set rest"
  shows "(m \<in> set (marked (processFolder files config))
            \<longleftrightarrow> created m - created oldest < DUPLICATION_WINDOW_MS config)
       \<and> (getId (fileObject m) \<in> set (trashCalls (processFolder files config))
            \<longleftrightarrow> \<not> DRY_RUN config \<and> created m - created oldest < DUPLICATION_WINDOW_MS config)"
proof -
  have g: "(k, g) \<in> set (fileGroups (scanFiles config files))"
    using assms(2) by (simp add: processFolder_fileGroups)
  have "set g = set (oldest # rest)" using assms(3) set_sort [of created g] by simp
  then have mem: "m \<in> set g" using assms(4) by simp
  have c: "m \<in> set (candidates config g)
             \<longleftrightarrow> created m - created oldest < DUPLICATION_WINDOW_MS config"
    using assms(4) by (simp add: candidates_sorted [OF assms(3)] inWindow_def)
  show ?thesis
    using marked_iff_candidate [OF assms(1) g mem] trashed_id_iff_candidate [OF assms(1) g mem] c
    by simp
qed

theorem trashed_iff_strictly_inside_window_witness:
  "distinct (map getId scenarioA)
   \<and> (''H1'', map mkFileInfo scenarioA)
        \<in> set (fileGroups (processFolder scenarioA (configOf (24 * hour) False)))
   \<and> ''B'' \<in> set (trashCalls (processFolder scenarioA (configOf (24 * hour) False)))
   \<and> ''C'' \<notin> set (trashCalls (processFolder scenarioA (configOf (24 * hour) False)))"
proof -
  have h1: "distinct (map getId scenarioA)"
    by (simp add: scenarioA_def plainFile_def)
  have h2: "(''H1'', map mkFileInfo scenarioA)
              \<in> set (fileGroups (processFolder scenarioA (configOf (24 * hour) False)))"
    by code_simp
  have h3: "sort_key created (map mkFileInfo scenarioA)
              = mkFileInfo (plainFile ''A'' ''a.pdf'' 0 (Checksum ''H1''))
                # [mkFileInfo (plainFile ''B'' ''b.pdf'' (1 * hour) (Checksum ''H1'')),
                   mkFileInfo (plainFile ''C'' ''c.pdf'' (30 * hour) (Checksum ''H1''))]"
    by (simp add: scenarioA_def plainFile_def mkFileInfo_def hour_def)
  have b: "''B'' \<in> set (trashCalls (processFolder scenarioA (configOf (24 * hour) False)))"
    using trashed_iff_strictly_inside_window [OF h1 h2 h3,
        of "mkFileInfo (plainFile ''B'' ''b.pdf'' (1 * hour) (Checksum ''H1''))"]
    by (simp add: plainFile_def configOf_def hour_def)
  have c: "''C'' \<notin> set (trashCalls (processFolder scenarioA (configOf (24 * hour) False)))"
    using trashed_iff_strictly_inside_window [OF h1 h2 h3,
        of "mkFileInfo (plainFile ''C'' ''c.pdf'' (30 * hour) (Checksum ''H1''))"]
    by (simp add: plainFile_def configOf_def hour_def)
  show ?thesis using h1 h2 b c by simp
qed

lemma groupOf_setTrashedAll:
  "groupOf config (setTrashedAll ids files) k =
     filter (\<lambda>i. getId (fileObject i) \<notin> set ids) (groupOf config files k)"
  by (induction files)
    (auto simp: groupOf_def setTrashedAll_def hashedAs_def isFileExcluded_def)

lemma group_present:
  assumes "k \<noteq> []" and "groupOf config files k \<noteq> []"
  shows "(k, groupOf config files k) \<in> set (fileGroups (scanFiles config files))"
proof -
  have "lookupGroup (fileGroups (scanFiles config files)) k = groupOf config files k"
    using assms(1) by (simp add: scanFiles_def scan_lookup) (simp add: lookupGroup_def initial_run_def)
  then have "map_of (fileGroups (scanFiles config files)) k = Some (groupOf config files k)"
    using assms(2) by (auto simp: lookupGroup_def split: option.splits)
  then show ?thesis by (rule map_of_SomeD)
qed

lemma candidates_after_removal:
  assumes "distinct g"
  shows "candidates config (filter (\<lambda>i. i \<notin> set (candidates config g)) g) = []"
proof (cases "sort_key created g")
  case Nil
  then have "length g = 0" using length_sort [of created g] by simp
  then show ?thesis by (simp add: candidates_def)
next
  case (Cons oldest rest)
  let ?P = "\<lambda>i. i \<notin> set (candidates config g)"
  have c: "candidates config g = filter (inWindow config oldest) rest"
    by (rule candidates_sorted [OF Cons])
  have "oldest \<notin> set rest" using sorted_head_least(3) [OF Cons assms] .
  then have keep: "?P oldest" by (simp add: c)
  have "sort_key created (filter ?P g) = filter ?P (sort_key created g)"
    by (simp add: filter_sort)
  also have "\<dots> = oldest # filter ?P rest" using Cons keep by simp
  also have "filter ?P rest = filter (\<lambda>i. \<not> inWindow config oldest i) rest"
    by (rule filter_cong) (auto simp: c)
  finally have s: "sort_key created (filter ?P g)
                     = oldest # filter (\<lambda>i. \<not> inWindow config oldest i) rest" .
  show ?thesis
    by (simp add: candidates_sorted [OF s])
qed

text \<open>
  C9. After a run of \<^verbatim>\<open>processFolder\<close> with dry-run off, a second run on the folder as the
  first run left it marks no file, calls \<^verbatim>\<open>setTrashed\<close> on none and reports zero deleted
  files and zero bytes freed.
\<close>

theorem processFolder_idempotent:
  assumes "distinct (map getId files)" and "\<not> DRY_RUN config"
  shows "trashCalls (processFolder (folderAfter files config) config) = []
       \<and> marked (processFolder (folderAfter files config) config) = []
       \<and> filesDeleted (processFolder (folderAfter files config) config) = 0
       \<and> spaceFreed (processFolder (folderAfter files config) config) = 0"
proof -
  let ?T = "trashCalls (processFolder files config)"
  let ?after = "folderAfter files config"
  have none: "candidates config g' = []"
    if g': "(k, g') \<in> set (fileGroups (scanFiles config ?after))" for k g'
  proof -
    let ?g = "groupOf config files k"
    have k: "k \<noteq> []" and ne: "g' \<noteq> []" and eq: "g' = groupOf config ?after k"
      using scanFiles_group [OF g'] by simp_all
    have f: "g' = filter (\<lambda>i. getId (fileObject i) \<notin> set ?T) ?g"
      using eq by (simp add: folderAfter_def groupOf_setTrashedAll)
    then have "?g \<noteq> []" using ne by auto
    then have g: "(k, ?g) \<in> set (fileGroups (scanFiles config files))"
      using group_present [OF k] by simp
    have "filter (\<lambda>i. getId (fileObject i) \<notin> set ?T) ?g
            = filter (\<lambda>i. i \<notin> set (candidates config ?g)) ?g"
      by (rule filter_cong) (simp_all add: trashed_id_iff_candidate [OF assms(1) g] assms(2))
    then show ?thesis
      using f candidates_after_removal [OF distinct_groupOf [OF assms(1)], of config config k]
      by simp
  qed
  have m: "marked (processFolder ?after config) = []"
    using none by (auto simp: processFolder_marked)
  have t: "trashCalls (processFolder ?after config) = []"
    by (simp add: processFolder_trashCalls m)
  have scan0: "filesDeleted (scanFiles config fs) = 0 \<and> spaceFreed (scanFiles config fs) = 0" for fs
  proof -
    have "filesDeleted (foldl (scanFile config) st fs) = filesDeleted st
        \<and> spaceFreed (foldl (scanFile config) st fs) = spaceFreed st" for st
      by (induction fs arbitrary: st)
        (simp_all add: scanFile_def Let_def split: md5_lookup.splits)
    then show ?thesis by (simp add: scanFiles_def initial_run_def)
  qed
  have c0: "concat (map (candidates config) (map snd (fileGroups (scanFiles config ?after)))) = []"
    using m by (simp add: processFolder_marked)
  have d: "filesDeleted (processFolder ?after config) = 0"
    using scan0 [of ?after] c0 by (simp add: processFolder_def Let_def processGroups_filesDeleted)
  have s: "spaceFreed (processFolder ?after config) = 0"
    using scan0 [of ?after] c0 by (simp add: processFolder_def Let_def processGroups_spaceFreed)
  show ?thesis using t m d s by simp
qed

theorem processFolder_idempotent_witness:
  "distinct (map getId scenarioA) \<and> \<not> DRY_RUN (configOf (24 * hour) False)
   \<and> trashCalls (processFolder scenarioA (configOf (24 * hour) False)) = [''B'']
   \<and> trashCalls (processFolder (folderAfter scenarioA (configOf (24 * hour) False))
        (configOf (24 * hour) False)) = []"
proof -
  have h1: "distinct (map getId scenarioA)"
    by (simp add: scenarioA_def plainFile_def)
  have h2: "\<not> DRY_RUN (configOf (24 * hour) False)"
    by (simp add: configOf_def)
  have first: "trashCalls (processFolder scenarioA (configOf (24 * hour) False)) = [''B'']"
    by code_simp
  show ?thesis
    using processFolder_idempotent [OF h1 h2] h1 h2 first by simp
qed

section \<open>Properties of the folder merge\<close>



lemma reduce_first_least:
  fixes key :: "'a \<Rightarrow> int"
  defines "step \<equiv> \<lambda>best current. if key current < key best then current else best"
  shows "\<exists>i < length (x # xs). foldl step x xs = (x # xs) ! i
           \<and> (\<forall>j < length (x # xs). key ((x # xs) ! i) \<le> key ((x # xs) ! j))
           \<and> (\<forall>j < i. key ((x # xs) ! i) < key ((x # xs) ! j))"
proof (induction xs rule: rev_induct)
  case Nil
  show ?case by simp
next
  case (snoc y ys)
  then obtain i where i: "i < length (x # ys)" "foldl step x ys = (x # ys) ! i"
      and least: "\<forall>j < length (x # ys). key ((x # ys) ! i) \<le> key ((x # ys) ! j)"
      and first: "\<forall>j < i. key ((x # ys) ! i) < key ((x # ys) ! j)"
    by blast
  let ?l = "x # ys @ [y]"
  have app: "?l = (x # ys) @ [y]" by simp
  have old: "j < length (x # ys) \<Longrightarrow> ?l ! j = (x # ys) ! j" for j
    unfolding app by (simp only: nth_append if_True)
  have new: "?l ! length (x # ys) = y"
    unfolding app by (simp only: nth_append_length)
  show ?case
  proof (cases "key y < key ((x # ys) ! i)")
    case True
    have r: "foldl step x (ys @ [y]) = y"
      using True i(2) by (simp add: step_def)
    have "length (x # ys) < length ?l" by simp
    moreover have "foldl step x (ys @ [y]) = ?l ! length (x # ys)"
      using r new by simp
    moreover have "\<forall>j < length ?l. key (?l ! length (x # ys)) \<le> key (?l ! j)"
    proof (intro allI impI)
      fix j assume "j < length ?l"
      then consider "j < length (x # ys)" | "j = length (x # ys)" by force
      then show "key (?l ! length (x # ys)) \<le> key (?l ! j)"
      proof cases
        case 1
        then show ?thesis using least True old [OF 1] new by force
      next
        case 2
        then show ?thesis by simp
      qed
    qed
    moreover have "\<forall>j < length (x # ys). key (?l ! length (x # ys)) < key (?l ! j)"
    proof (intro allI impI)
      fix j assume j: "j < length (x # ys)"
      then show "key (?l ! length (x # ys)) < key (?l ! j)"
        using least True old [OF j] new by force
    qed
    ultimately show ?thesis by blast
  next
    case False
    have r: "foldl step x (ys @ [y]) = (x # ys) ! i"
      using False i(2) by (simp add: step_def)
    have "i < length ?l" using i(1) by simp
    moreover have "foldl step x (ys @ [y]) = ?l ! i"
      using r old [OF i(1)] by simp
    moreover have "\<forall>j < length ?l. key (?l ! i) \<le> key (?l ! j)"
    proof (intro allI impI)
      fix j assume "j < length ?l"
      then consider "j < length (x # ys)" | "j = length (x # ys)" by force
      then show "key (?l ! i) \<le> key (?l ! j)"
      proof cases
        case 1
        then show ?thesis using least old [OF 1] old [OF i(1)] by simp
      next
        case 2
        then show ?thesis using False new old [OF i(1)] by simp
      qed
    qed
    moreover have "\<forall>j < i. key (?l ! i) < key (?l ! j)"
    proof (intro allI impI)
      fix j assume j: "j < i"
      then have "j < length (x # ys)" using i(1) by simp
      then show "key (?l ! i) < key (?l ! j)"
        using first j old [OF i(1)] old by simp
    qed
    ultimately show ?thesis by blast
  qed
qed

lemma first_of_least:
  fixes v :: "nat \<Rightarrow> int"
  assumes "\<forall>j < i. v i < v j" and "v j = v i"
  shows "i \<le> j"
proof (rule ccontr)
  assume "\<not> i \<le> j"
  then have "j < i" by simp
  then have "v i < v j" using assms(1) by simp
  then show False using assms(2) by simp
qed

text \<open>
  C6. For a non-empty group, \<^verbatim>\<open>selectTargetFolder\<close> returns a member to which the strategy
  prefers no other member, and among all members whose strategy-relevant value (creation
  time for OLDEST, last update for NEWEST, recursive file count for MOST_FILES) equals that
  of the returned one, the returned one comes first in the input sequence.
\<close>

theorem selectTargetFolder_ties_by_input_order:
  assumes "folders \<noteq> []"
  shows "\<exists>i < length folders.
           selectTargetFolder folders config = Some (folders ! i)
           \<and> (\<forall>j < length folders.
                 \<not> preferred (MERGE_KEEP_FOLDER_STRATEGY config) (folders ! j) (folders ! i))
           \<and> (\<forall>j < length folders.
                 strategyValue (MERGE_KEEP_FOLDER_STRATEGY config) (folders ! j)
                   = strategyValue (MERGE_KEEP_FOLDER_STRATEGY config) (folders ! i)
                 \<longrightarrow> i \<le> j)"
proof -
  obtain x xs where l: "folders = x # xs"
    using assms by (cases folders) auto
  show ?thesis
  proof (cases "MERGE_KEEP_FOLDER_STRATEGY config")
    case OLDEST
    let ?key = "\<lambda>f. folderDateCreated (folder f)"
    obtain i where i: "i < length (x # xs)"
        and r: "foldl (\<lambda>best current. if ?key current < ?key best then current else best) x xs
                  = (x # xs) ! i"
        and least: "\<forall>j < length (x # xs). ?key ((x # xs) ! i) \<le> ?key ((x # xs) ! j)"
        and first: "\<forall>j < i. ?key ((x # xs) ! i) < ?key ((x # xs) ! j)"
      using reduce_first_least [where key = ?key and x = x and xs = xs] by blast
    have "selectTargetFolder folders config = Some (folders ! i)"
      using r by (simp add: selectTargetFolder_def OLDEST reduce_def l)
    moreover have "\<forall>j < length folders. \<not> preferred OLDEST (folders ! j) (folders ! i)"
      using least by (simp add: preferred_def strategyValue_def l not_less)
    moreover have "\<forall>j < length folders.
        strategyValue OLDEST (folders ! j) = strategyValue OLDEST (folders ! i) \<longrightarrow> i \<le> j"
      using first_of_least [of i "\<lambda>k. ?key ((x # xs) ! k)"] first
      by (simp add: strategyValue_def l)
    ultimately show ?thesis using i by (auto simp: OLDEST l)
  next
    case NEWEST
    let ?key = "\<lambda>f. - folderLastUpdated (folder f)"
    obtain i where i: "i < length (x # xs)"
        and r: "foldl (\<lambda>best current. if ?key current < ?key best then current else best) x xs
                  = (x # xs) ! i"
        and least: "\<forall>j < length (x # xs). ?key ((x # xs) ! i) \<le> ?key ((x # xs) ! j)"
        and first: "\<forall>j < i. ?key ((x # xs) ! i) < ?key ((x # xs) ! j)"
      using reduce_first_least [where key = ?key and x = x and xs = xs] by blast
    have "selectTargetFolder folders config = Some (folders ! i)"
      using r by (simp add: selectTargetFolder_def NEWEST reduce_def l)
    moreover have "\<forall>j < length folders. \<not> preferred NEWEST (folders ! j) (folders ! i)"
      using least by (simp add: preferred_def strategyValue_def l not_less)
    moreover have "\<forall>j < length folders.
        strategyValue NEWEST (folders ! j) = strategyValue NEWEST (folders ! i) \<longrightarrow> i \<le> j"
      using first_of_least [of i "\<lambda>k. ?key ((x # xs) ! k)"] first
      by (simp add: strategyValue_def l)
    ultimately show ?thesis using i by (auto simp: NEWEST l)
  next
    case MOST_FILES
    let ?g = "\<lambda>f. (f, countFilesRecursive (folder f))"
    let ?key = "\<lambda>p :: FolderNode \<times> nat. - int (snd p)"
    obtain i where i: "i < length (?g x # map ?g xs)"
        and r: "foldl (\<lambda>best current. if ?key current < ?key best then current else best)
                  (?g x) (map ?g xs) = (?g x # map ?g xs) ! i"
        and least: "\<forall>j < length (?g x # map ?g xs).
                      ?key ((?g x # map ?g xs) ! i) \<le> ?key ((?g x # map ?g xs) ! j)"
        and first: "\<forall>j < i. ?key ((?g x # map ?g xs) ! i) < ?key ((?g x # map ?g xs) ! j)"
      using reduce_first_least [where key = ?key and x = "?g x" and xs = "map ?g xs"] by blast
    have il: "i < length (x # xs)" using i by simp
    have nth: "(?g x # map ?g xs) ! j = ?g ((x # xs) ! j)" if "j < length (x # xs)" for j
      using nth_map [of j "x # xs" ?g] that by simp
    have "selectTargetFolder folders config = Some (folders ! i)"
      using r nth [OF il] by (simp add: selectTargetFolder_def MOST_FILES reduce_def l)
    moreover have "\<forall>j < length folders. \<not> preferred MOST_FILES (folders ! j) (folders ! i)"
    proof (intro allI impI)
      fix j assume j: "j < length folders"
      then have "?key ((?g x # map ?g xs) ! i) \<le> ?key ((?g x # map ?g xs) ! j)"
        using least by (simp add: l)
      then show "\<not> preferred MOST_FILES (folders ! j) (folders ! i)"
        using nth [OF il] nth [of j] j by (simp add: preferred_def strategyValue_def l)
    qed
    moreover have "\<forall>j < length folders.
        strategyValue MOST_FILES (folders ! j) = strategyValue MOST_FILES (folders ! i) \<longrightarrow> i \<le> j"
    proof (intro allI impI)
      fix j assume j: "j < length folders"
        and e: "strategyValue MOST_FILES (folders ! j) = strategyValue MOST_FILES (folders ! i)"
      have "\<forall>k < i. - int (countFilesRecursive (folder ((x # xs) ! i)))
                     < - int (countFilesRecursive (folder ((x # xs) ! k)))"
      proof (intro allI impI)
        fix k assume k: "k < i"
        then have "k < length (x # xs)" using il by simp
        then show "- int (countFilesRecursive (folder ((x # xs) ! i)))
                     < - int (countFilesRecursive (folder ((x # xs) ! k)))"
          using first k nth [OF il] nth [of k] by force
      qed
      then show "i \<le> j"
        using first_of_least [of i "\<lambda>k. - int (countFilesRecursive (folder ((x # xs) ! k)))" j] e
        by (simp add: strategyValue_def l)
    qed
    ultimately show ?thesis using il by (auto simp: MOST_FILES l)
  next
    case OTHER_STRATEGY
    have "selectTargetFolder folders config = Some (folders ! 0)"
      by (simp add: selectTargetFolder_def OTHER_STRATEGY l)
    then show ?thesis
      by (auto simp: OTHER_STRATEGY preferred_def l)
  qed
qed

theorem selectTargetFolder_ties_by_input_order_witness:
  "tiedFolders \<noteq> []
   \<and> selectTargetFolder tiedFolders (strategyConfig OLDEST) = Some (tiedFolders ! 0)
   \<and> selectTargetFolder tiedFolders (strategyConfig NEWEST) = Some (tiedFolders ! 0)
   \<and> selectTargetFolder tiedFolders (strategyConfig MOST_FILES) = Some (tiedFolders ! 0)"
proof -
  have h: "tiedFolders \<noteq> []" by (simp add: tiedFolders_def)
  have pick: "selectTargetFolder tiedFolders (strategyConfig s) = Some (tiedFolders ! 0)"
    if best: "\<forall>j < length tiedFolders.
                 \<not> preferred s (tiedFolders ! 0) (tiedFolders ! j)
                 \<longrightarrow> strategyValue s (tiedFolders ! j) = strategyValue s (tiedFolders ! 0)"
      and some: "\<not> preferred s (tiedFolders ! 2) (tiedFolders ! 0)
                 \<and> preferred s (tiedFolders ! 0) (tiedFolders ! 2)" for s
  proof -
    have c: "MERGE_KEEP_FOLDER_STRATEGY (strategyConfig s) = s"
      by (simp add: strategyConfig_def)
    obtain i where i: "i < length tiedFolders"
        and r: "selectTargetFolder tiedFolders (strategyConfig s) = Some (tiedFolders ! i)"
        and np: "\<forall>j < length tiedFolders. \<not> preferred s (tiedFolders ! j) (tiedFolders ! i)"
        and fst: "\<forall>j < length tiedFolders.
                 strategyValue s (tiedFolders ! j) = strategyValue s (tiedFolders ! i) \<longrightarrow> i \<le> j"
      using selectTargetFolder_ties_by_input_order [OF h, of "strategyConfig s"] c by auto
    have len: "length tiedFolders = 3" by (simp add: tiedFolders_def)
    have "\<not> preferred s (tiedFolders ! 0) (tiedFolders ! i)" using np len by simp
    then have "strategyValue s (tiedFolders ! i) = strategyValue s (tiedFolders ! 0)"
      using best i by simp
    then have "i \<le> 0" using fst len by (metis zero_less_numeral)
    then show ?thesis using r by simp
  qed
  have len: "length tiedFolders = 3" by (simp add: tiedFolders_def)
  have cases3: "(\<forall>j < length tiedFolders. P j) \<longleftrightarrow> P 0 \<and> P 1 \<and> P 2" for P
  proof -
    have "j < 3 \<longleftrightarrow> j = 0 \<or> j = 1 \<or> j = 2" for j :: nat by auto
    then show ?thesis unfolding len by auto
  qed
  have o: "selectTargetFolder tiedFolders (strategyConfig OLDEST) = Some (tiedFolders ! 0)"
    by (rule pick)
      (simp_all add: cases3, simp_all add: tiedFolders_def leafNode_def preferred_def strategyValue_def)
  have n: "selectTargetFolder tiedFolders (strategyConfig NEWEST) = Some (tiedFolders ! 0)"
    by (rule pick)
      (simp_all add: cases3, simp_all add: tiedFolders_def leafNode_def preferred_def strategyValue_def)
  have m: "selectTargetFolder tiedFolders (strategyConfig MOST_FILES) = Some (tiedFolders ! 0)"
    by (rule pick)
      (simp_all add: cases3, simp_all add: tiedFolders_def leafNode_def preferred_def strategyValue_def)
  show ?thesis using h o n m by simp
qed

lemma lastIndexOf_split:
  assumes "c \<in> set s"
  shows "\<exists>pre post. s = pre @ c # post \<and> c \<notin> set post \<and> lastIndexOf s c = int (length pre)"
proof -
  obtain pre post where s: "s = pre @ c # post" and n: "c \<notin> set post"
    using split_list_last [OF assms] by blast
  have r: "rev s = rev post @ c # rev pre" using s by simp
  have "takeWhile (\<lambda>x. x \<noteq> c) (rev post @ c # rev pre)
      = rev post @ takeWhile (\<lambda>x. x \<noteq> c) (c # rev pre)"
    using n by (intro takeWhile_append2) auto
  then have "takeWhile (\<lambda>x. x \<noteq> c) (rev s) = rev post"
    using r by simp
  then have "lastIndexOf s c = int (length pre)"
    using assms s by (simp add: lastIndexOf_def)
  then show ?thesis using s n by blast
qed

lemma splitName_shape:
  "case splitName baseName of (stem, ext) \<Rightarrow>
     stem @ ext = baseName
     \<and> (ext = [] \<or> (stem \<noteq> [] \<and> hd ext = CHR ''.'' \<and> CHR ''.'' \<notin> set (tl ext)))
     \<and> (ext = [] \<longrightarrow> CHR ''.'' \<notin> set (tl baseName))"
proof (cases "CHR ''.'' \<in> set baseName")
  case False
  then have "lastIndexOf baseName (CHR ''.'') = - 1" by (simp add: lastIndexOf_def)
  then have "splitName baseName = (baseName, [])" by (simp add: splitName_def)
  moreover have "CHR ''.'' \<notin> set (tl baseName)"
    using False by (cases baseName) auto
  ultimately show ?thesis by simp
next
  case True
  then obtain pre post where s: "baseName = pre @ CHR ''.'' # post"
      and n: "CHR ''.'' \<notin> set post"
      and k: "lastIndexOf baseName (CHR ''.'') = int (length pre)"
    using lastIndexOf_split by blast
  show ?thesis
  proof (cases "pre = []")
    case True
    then have "splitName baseName = (baseName, [])" using k by (simp add: splitName_def)
    moreover have "CHR ''.'' \<notin> set (tl baseName)" using True s n by simp
    ultimately show ?thesis by simp
  next
    case False
    then have "splitName baseName = (pre, CHR ''.'' # post)"
      using k s by (simp add: splitName_def)
    then show ?thesis using s n False by simp
  qed
qed

lemma nextFreeName_least:
  "\<exists>k \<ge> counter. nextFreeName names stem ext counter = numbered stem ext k
      \<and> numbered stem ext k \<notin> set names
      \<and> (\<forall>j. counter \<le> j \<and> j < k \<longrightarrow> numbered stem ext j \<in> set names)"
proof (induction names stem ext counter rule: nextFreeName.induct)
  case (1 names stem ext counter)
  show ?case
  proof (cases "numbered stem ext counter \<in> set names")
    case True
    then obtain k where k: "counter + 1 \<le> k"
        and r: "nextFreeName names stem ext (counter + 1) = numbered stem ext k"
        and free: "numbered stem ext k \<notin> set names"
        and used: "\<forall>j. counter + 1 \<le> j \<and> j < k \<longrightarrow> numbered stem ext j \<in> set names"
      using "1.IH" by blast
    have "nextFreeName names stem ext counter = numbered stem ext k"
      using True r by (subst nextFreeName.simps) simp
    moreover have "\<forall>j. counter \<le> j \<and> j < k \<longrightarrow> numbered stem ext j \<in> set names"
    proof (intro allI impI)
      fix j assume j: "counter \<le> j \<and> j < k"
      show "numbered stem ext j \<in> set names"
      proof (cases "j = counter")
        case True
        then show ?thesis using \<open>numbered stem ext counter \<in> set names\<close> by simp
      next
        case False
        then have "counter + 1 \<le> j" using j by simp
        then show ?thesis using used j by simp
      qed
    qed
    moreover have "counter \<le> k" using k by simp
    ultimately show ?thesis using free by blast
  next
    case False
    then have "nextFreeName names stem ext counter = numbered stem ext counter"
      by (subst nextFreeName.simps) simp
    then show ?thesis using False by auto
  qed
qed

text \<open>
  C7, as stated, on a name whose only dot is its first character: splitting \<^verbatim>\<open>.env\<close> at
  its last dot gives an empty stem and the candidate \<^verbatim>\<open> (2).env\<close>; the code keeps the whole
  name as the stem (the split needs \<^verbatim>\<open>lastDot > 0\<close>) and returns \<^verbatim>\<open>.env (2)\<close>.
\<close>

theorem leading_dot_counterexample:
  "generateUniqueName ''.env'' [] = ''.env (2)''
   \<and> uniqueNameAsWorded ''.env'' [] = '' (2).env''
   \<and> generateUniqueName ''.env'' [] \<noteq> uniqueNameAsWorded ''.env'' []"
  by code_simp

text \<open>
  C7, amended. \<^verbatim>\<open>generateUniqueName\<close> splits the name into stem and extension at the last
  dot when that dot is not the first character (otherwise the whole name is the stem and the
  extension is empty), tries the suffixes \<^verbatim>\<open> (2)\<close>, \<^verbatim>\<open> (3)\<close>, ... appended to the stem, each
  candidate checked against the names of the target's listing, and returns the first
  candidate that is not in the listing. It always returns.
\<close>

theorem generateUniqueName_first_free:
  "\<exists>stem ext k.
     splitName baseName = (stem, ext)
     \<and> stem @ ext = baseName
     \<and> (ext = [] \<or> (stem \<noteq> [] \<and> hd ext = CHR ''.'' \<and> CHR ''.'' \<notin> set (tl ext)))
     \<and> (ext = [] \<longrightarrow> CHR ''.'' \<notin> set (tl baseName))
     \<and> 2 \<le> k
     \<and> generateUniqueName baseName listing = numbered stem ext k
     \<and> numbered stem ext k \<notin> set (map getName listing)
     \<and> (\<forall>j. 2 \<le> j \<and> j < k \<longrightarrow> numbered stem ext j \<in> set (map getName listing))"
proof -
  obtain stem ext where s: "splitName baseName = (stem, ext)"
    by (cases "splitName baseName") auto
  obtain k where "2 \<le> k"
      and "nextFreeName (map getName listing) stem ext 2 = numbered stem ext k"
      and "numbered stem ext k \<notin> set (map getName listing)"
      and "\<forall>j. 2 \<le> j \<and> j < k \<longrightarrow> numbered stem ext j \<in> set (map getName listing)"
    using nextFreeName_least [of 2 "map getName listing" stem ext] by blast
  moreover have "generateUniqueName baseName listing
      = nextFreeName (map getName listing) stem ext 2"
    by (simp add: generateUniqueName_def s)
  moreover have "stem @ ext = baseName
      \<and> (ext = [] \<or> (stem \<noteq> [] \<and> hd ext = CHR ''.'' \<and> CHR ''.'' \<notin> set (tl ext)))
      \<and> (ext = [] \<longrightarrow> CHR ''.'' \<notin> set (tl baseName))"
    using splitName_shape [of baseName] s by simp
  ultimately show ?thesis using s by (intro exI [of _ stem] exI [of _ ext] exI [of _ k]) simp
qed

theorem generateUniqueName_first_free_witness:
  "numbered ''invoice'' ''.pdf'' 2 \<in> set (map getName seededTarget)
   \<and> numbered ''invoice'' ''.pdf'' 3 \<in> set (map getName seededTarget)
   \<and> numbered ''invoice'' ''.pdf'' 4 \<in> set (map getName seededTarget)
   \<and> generateUniqueName ''invoice.pdf'' seededTarget = ''invoice (5).pdf''"
proof -
  let ?names = "set (map getName seededTarget)"
  have in2: "numbered ''invoice'' ''.pdf'' 2 \<in> ?names"
    and in3: "numbered ''invoice'' ''.pdf'' 3 \<in> ?names"
    and in4: "numbered ''invoice'' ''.pdf'' 4 \<in> ?names"
    and out5: "numbered ''invoice'' ''.pdf'' 5 \<notin> ?names"
    by code_simp+
  have sp: "splitName ''invoice.pdf'' = (''invoice'', ''.pdf'')" by code_simp
  obtain stem ext k where s: "splitName ''invoice.pdf'' = (stem, ext)" and k2: "2 \<le> k"
      and r: "generateUniqueName ''invoice.pdf'' seededTarget = numbered stem ext k"
      and free: "numbered stem ext k \<notin> ?names"
      and used: "\<forall>j. 2 \<le> j \<and> j < k \<longrightarrow> numbered stem ext j \<in> ?names"
    using generateUniqueName_first_free [of "''invoice.pdf''" seededTarget] by blast
  have se: "stem = ''invoice''" "ext = ''.pdf''" using s sp by simp_all
  have "\<not> 5 < k" using used out5 se by auto
  moreover have "k \<noteq> 2" "k \<noteq> 3" "k \<noteq> 4" using free in2 in3 in4 se by auto
  ultimately have "k = 5" using k2 by arith
  moreover have "numbered ''invoice'' ''.pdf'' 5 = ''invoice (5).pdf''" by code_simp
  ultimately show ?thesis using r se in2 in3 in4 by simp
qed







section \<open>Dry-run mode\<close>

lemma mergeFile_dry:
  assumes "DRY_RUN config"
  shows "calls (mergeFile config targetId st f) = calls st
       \<and> sourceListing (mergeFile config targetId st f) = sourceListing st
       \<and> targetListing (mergeFile config targetId st f) = targetListing st"
  using assms
  by (simp add: mergeFile_def Let_def split: list.splits resolution.splits)

lemma mergeFiles_dry:
  assumes "DRY_RUN config"
  shows "calls (foldl (mergeFile config targetId) st fs) = calls st
       \<and> sourceListing (foldl (mergeFile config targetId) st fs) = sourceListing st
       \<and> targetListing (foldl (mergeFile config targetId) st fs) = targetListing st"
  by (induction fs arbitrary: st) (simp_all add: mergeFile_dry [OF assms])

lemma mergeFolder_dry:
  assumes "DRY_RUN config"
  shows "calls (mergeFolder sourceFiles targetId targetFiles config) = []
       \<and> sourceListing (mergeFolder sourceFiles targetId targetFiles config) = sourceFiles
       \<and> targetListing (mergeFolder sourceFiles targetId targetFiles config) = targetFiles"
  using mergeFiles_dry [OF assms] by (simp add: mergeFolder_def startOfMerge_def)

lemma mergeSource_dry:
  assumes "DRY_RUN config"
  shows "issued (mergeSource config targetId st src) = issued st
       \<and> targetNow (mergeSource config targetId st src) = targetNow st"
  using assms mergeFolder_dry [OF assms] by (simp add: mergeSource_def Let_def)

lemma mergeSources_dry:
  assumes "DRY_RUN config"
  shows "issued (foldl (mergeSource config targetId) st srcs) = issued st"
  by (induction srcs arbitrary: st) (simp_all add: mergeSource_dry [OF assms])

lemma scanFile_ignores_dry_run:
  "scanFile (config\<lparr>DRY_RUN := b\<rparr>) st f = scanFile config st f"
  by (simp add: scanFile_def)

lemma scanFiles_ignores_dry_run:
  "scanFiles (config\<lparr>DRY_RUN := b\<rparr>) files = scanFiles config files"
proof -
  have "scanFile (config\<lparr>DRY_RUN := b\<rparr>) = scanFile config"
    by (intro ext) (rule scanFile_ignores_dry_run)
  then show ?thesis by (simp add: scanFiles_def)
qed

lemma candidates_ignores_dry_run:
  "candidates (config\<lparr>DRY_RUN := b\<rparr>) = candidates config"
proof -
  have "inWindow (config\<lparr>DRY_RUN := b\<rparr>) oldest = inWindow config oldest" for oldest
    by (intro ext) (simp add: inWindow_def)
  then show ?thesis by (intro ext) (simp add: candidates_def split: list.splits)
qed

lemma scanFiles_counters:
  "filesDeleted (scanFiles config files) = 0" "spaceFreed (scanFiles config files) = 0"
proof -
  have "filesDeleted (foldl (scanFile config) st files) = filesDeleted st
      \<and> spaceFreed (foldl (scanFile config) st files) = spaceFreed st" for st
    by (induction files arbitrary: st)
      (simp_all add: scanFile_def Let_def split: md5_lookup.splits)
  then show "filesDeleted (scanFiles config files) = 0" "spaceFreed (scanFiles config files) = 0"
    by (simp_all add: scanFiles_def initial_run_def)
qed

lemma processFolder_counters:
  "filesAnalyzed (processFolder files config) = filesAnalyzed (scanFiles config files)"
  "filesSkipped (processFolder files config) = filesSkipped (scanFiles config files)"
  "hashLookups (processFolder files config) = hashLookups (scanFiles config files)"
  "filesDeleted (processFolder files config) = length (marked (processFolder files config))"
  "spaceFreed (processFolder files config)
     = sum_list (map fileSize (marked (processFolder files config)))"
  by (simp_all add: processFolder_marked scanFiles_counters)
    (simp_all add: processFolder_def Let_def processGroups_scan processGroups_filesDeleted
      processGroups_spaceFreed scanFiles_counters)

lemma setTrashedAll_none: "setTrashedAll [] files = files"
  by (simp add: setTrashedAll_def)

lemma mergeFile_decides:
  assumes "DRY_RUN config"
  shows "filesMoved (mergeFile config targetId st f)
           = filesMoved st
             + (if decide config (targetListing st) f = MoveNoConflict then 1 else 0)
       \<and> duplicatesHandled (mergeFile config targetId st f)
           = duplicatesHandled st
             + (if decide config (targetListing st) f = Resolve KEEP_EXISTING
                   \<or> decide config (targetListing st) f = Resolve KEEP_INCOMING then 1 else 0)
       \<and> filesRenamed (mergeFile config targetId st f)
           = filesRenamed st
             + (if decide config (targetListing st) f = Resolve RENAME_INCOMING then 1 else 0)"
  using assms
  by (simp add: mergeFile_def decide_def Let_def split: list.splits resolution.splits)

lemma mergeFiles_decide:
  assumes "DRY_RUN config"
  shows "filesMoved (foldl (mergeFile config targetId) st fs)
           = filesMoved st
             + length (filter (\<lambda>f. decide config (targetListing st) f = MoveNoConflict) fs)
       \<and> duplicatesHandled (foldl (mergeFile config targetId) st fs)
           = duplicatesHandled st
             + length (filter (\<lambda>f. decide config (targetListing st) f = Resolve KEEP_EXISTING
                   \<or> decide config (targetListing st) f = Resolve KEEP_INCOMING) fs)
       \<and> filesRenamed (foldl (mergeFile config targetId) st fs)
           = filesRenamed st
             + length (filter (\<lambda>f. decide config (targetListing st) f = Resolve RENAME_INCOMING) fs)"
proof (induction fs arbitrary: st)
  case Nil
  show ?case by simp
next
  case (Cons f fs)
  have t: "targetListing (mergeFile config targetId st f) = targetListing st"
    using mergeFile_dry [OF assms] by simp
  show ?case
    using Cons.IH [of "mergeFile config targetId st f"] mergeFile_decides [OF assms, of targetId st f]
    by (simp add: t)
qed

text \<open>
  In a dry run \<^verbatim>\<open>mergeFolder\<close> still takes every decision, each against the target as it
  was at the start: its three counters are the numbers of source files whose decision is a
  move, a duplicate (keep-existing or keep-incoming) and a rename.
\<close>

lemma mergeFolder_dry_decisions:
  assumes "DRY_RUN config"
  shows "filesMoved (mergeFolder sourceFiles targetId targetFiles config)
           = length (filter (\<lambda>f. decide config targetFiles f = MoveNoConflict) sourceFiles)
       \<and> duplicatesHandled (mergeFolder sourceFiles targetId targetFiles config)
           = length (filter (\<lambda>f. decide config targetFiles f = Resolve KEEP_EXISTING
                 \<or> decide config targetFiles f = Resolve KEEP_INCOMING) sourceFiles)
       \<and> filesRenamed (mergeFolder sourceFiles targetId targetFiles config)
           = length (filter (\<lambda>f. decide config targetFiles f = Resolve RENAME_INCOMING)
               sourceFiles)"
  using mergeFiles_decide [OF assms, of targetId "startOfMerge sourceFiles targetFiles" sourceFiles]
  by (simp add: mergeFolder_def) (simp add: startOfMerge_def)

text \<open>
  C8 at a failing input. Two sibling folders of one name, the target empty, the source
  holding three files named \<^verbatim>\<open>a.txt\<close>: S1, S2 of another content, and S3 of S1's content and
  created before it. A dry run issues no call and reports three files moved, no duplicate,
  no rename and no emptied folder: it decides every file against the unchanged target and
  tests \<^verbatim>\<open>isFolderEmpty\<close> on the unchanged source. A run with dry-run off on the same store
  moves S1, renames S2, replaces S1 by S3 and trashes the emptied source: one file moved,
  one duplicate, one rename, one emptied folder.
\<close>

theorem dry_run_merge_statistics_differ:
  "map_option mergeSummary (mergeGroup (configOf (24 * hour) True) noStats acmeGroup)
     = Some (3, 0, 0, 0, [])
   \<and> map_option mergeSummary (mergeGroup (configOf (24 * hour) False) noStats acmeGroup)
     = Some (1, 1, 1, 1,
         [MoveTo ''S1'' ''F1'', SetName ''S2'' ''a (2).txt'', MoveTo ''S2'' ''F1'',
          SetTrashed ''S1'', MoveTo ''S3'' ''F1'', SetFolderTrashed ''F2''])"
  by code_simp

text \<open>
  What holds of dry-run mode on every input: \<^verbatim>\<open>mergeFolder\<close>, the merge of a group and
  \<^verbatim>\<open>processFolder\<close> issue no mutating call and leave the listings as they were; and the
  statistics \<^verbatim>\<open>processFolder\<close> returns (files analyzed, skipped, deleted, bytes freed), like
  the files it marks, are those of a run with dry-run off on the same folder.
\<close>

theorem dry_run_issues_no_call:
  assumes "DRY_RUN config"
  shows "calls (mergeFolder sourceFiles targetId targetFiles config) = []
       \<and> sourceListing (mergeFolder sourceFiles targetId targetFiles config) = sourceFiles
       \<and> targetListing (mergeFolder sourceFiles targetId targetFiles config) = targetFiles
       \<and> (\<forall>r. mergeGroup config stats0 folders = Some r \<longrightarrow> issued r = [])
       \<and> trashCalls (processFolder files config) = []
       \<and> folderAfter files config = files
       \<and> marked (processFolder files config)
           = marked (processFolder files (config\<lparr>DRY_RUN := False\<rparr>))
       \<and> filesAnalyzed (processFolder files config)
           = filesAnalyzed (processFolder files (config\<lparr>DRY_RUN := False\<rparr>))
       \<and> filesSkipped (processFolder files config)
           = filesSkipped (processFolder files (config\<lparr>DRY_RUN := False\<rparr>))
       \<and> filesDeleted (processFolder files config)
           = filesDeleted (processFolder files (config\<lparr>DRY_RUN := False\<rparr>))
       \<and> spaceFreed (processFolder files config)
           = spaceFreed (processFolder files (config\<lparr>DRY_RUN := False\<rparr>))"
proof -
  have g: "\<forall>r. mergeGroup config stats0 folders = Some r \<longrightarrow> issued r = []"
    by (auto simp: mergeGroup_def Let_def mergeSources_dry [OF assms] split: option.splits)
  have t: "trashCalls (processFolder files config) = []"
    using assms by (simp add: processFolder_trashCalls)
  then have a: "folderAfter files config = files"
    by (simp add: folderAfter_def setTrashedAll_none)
  have m: "marked (processFolder files config)
           = marked (processFolder files (config\<lparr>DRY_RUN := False\<rparr>))"
    by (simp add: processFolder_marked scanFiles_ignores_dry_run candidates_ignores_dry_run)
  show ?thesis
    using mergeFolder_dry [OF assms, of sourceFiles targetId targetFiles] g t a m
    by (simp add: processFolder_counters scanFiles_ignores_dry_run)
qed

theorem dry_run_issues_no_call_witness:
  "DRY_RUN (configOf (24 * hour) True)
   \<and> map_option issued (mergeGroup (configOf (24 * hour) True) noStats acmeGroup) = Some []
   \<and> trashCalls (processFolder scenarioA (configOf (24 * hour) True)) = []
   \<and> filesDeleted (processFolder scenarioA (configOf (24 * hour) True)) = 1
   \<and> filesDeleted (processFolder scenarioA (configOf (24 * hour) False)) = 1"
proof -
  let ?dry = "configOf (24 * hour) True"
  have h: "DRY_RUN ?dry" by (simp add: configOf_def)
  have l: "?dry\<lparr>DRY_RUN := False\<rparr> = configOf (24 * hour) False"
    by (simp add: configOf_def)
  note t = dry_run_issues_no_call [OF h, of "[]" "''F1''" "[]" noStats acmeGroup scenarioA]
  note t4 = t [THEN conjunct2, THEN conjunct2, THEN conjunct2]
  note t5 = t4 [THEN conjunct2]
  note t8 = t5 [THEN conjunct2, THEN conjunct2, THEN conjunct2]
  note t10 = t8 [THEN conjunct2, THEN conjunct2]
  have "mergeGroup ?dry noStats acmeGroup \<noteq> None" by code_simp
  then obtain r where r: "mergeGroup ?dry noStats acmeGroup = Some r"
    by (cases "mergeGroup ?dry noStats acmeGroup") auto
  then have "issued r = []" using t4 [THEN conjunct1] by (simp only:)
  then have i: "map_option issued (mergeGroup ?dry noStats acmeGroup) = Some []"
    using r by simp
  have live: "filesDeleted (processFolder scenarioA (configOf (24 * hour) False)) = 1"
    by code_simp
  have "filesDeleted (processFolder scenarioA ?dry)
      = filesDeleted (processFolder scenarioA (?dry\<lparr>DRY_RUN := False\<rparr>))"
    by (rule t10 [THEN conjunct1])
  then have d: "filesDeleted (processFolder scenarioA ?dry) = 1"
    using live l by (simp only:)
  have "trashCalls (processFolder scenarioA ?dry) = []"
    by (rule t5 [THEN conjunct1])
  then show ?thesis using h i d live by (simp only: simp_thms)
qed

section \<open>The filters of processFolder and the order of the phases\<close>

lemma scanFiles_hashLookups:
  "hashLookups (scanFiles config files) =
     map getId (filter (\<lambda>f. \<not> isTrashed f \<and> \<not> isFileExcluded f (EXCLUDED_EXTENSIONS config)) files)"
proof -
  have "hashLookups (foldl (scanFile config) st files) =
     hashLookups st @
     map getId (filter (\<lambda>f. \<not> isTrashed f \<and> \<not> isFileExcluded f (EXCLUDED_EXTENSIONS config)) files)"
    for st
    by (induction files arbitrary: st)
      (simp_all add: scanFile_def Let_def split: md5_lookup.splits)
  then show ?thesis by (simp add: scanFiles_def initial_run_def)
qed

lemma excluded_extension_never_hashed:
  assumes "distinct (map getId files)" and "f \<in> set files"
      and "isFileExcluded f (EXCLUDED_EXTENSIONS config)"
  shows "getId f \<notin> set (hashLookups (processFolder files config))"
proof
  assume "getId f \<in> set (hashLookups (processFolder files config))"
  then obtain f' where f': "f' \<in> set files" "getId f' = getId f"
      "\<not> isFileExcluded f' (EXCLUDED_EXTENSIONS config)"
    by (auto simp: processFolder_counters scanFiles_hashLookups)
  then have "f' = f" using same_id_same_file [OF assms(1) f'(1) assms(2)] by simp
  then show False using f'(3) assms(3) by simp
qed

lemma processFolder_ignores_age_filter:
  "processFolder files (config\<lparr>FILE_AGE_FILTER_DAYS := d, FILE_AGE_FILTER_MS := m\<rparr>)
     = processFolder files config"
proof -
  let ?c = "config\<lparr>FILE_AGE_FILTER_DAYS := d, FILE_AGE_FILTER_MS := m\<rparr>"
  have s: "scanFile ?c = scanFile config"
    by (intro ext) (simp add: scanFile_def)
  have c: "checkDuplicates ?c oldest ds st = checkDuplicates config oldest ds st" for oldest ds st
    by (induction ds arbitrary: st) simp_all
  have g: "processGroup ?c = processGroup config"
    by (intro ext) (simp add: processGroup_def c split: list.splits)
  show ?thesis by (simp add: processFolder_def scanFiles_def s g)
qed

text \<open>
  C2 at a failing input. With the age filter set to seven days and the clock at day 100, two
  files created on day 0 are both looked up for their checksum, counted as analyzed and
  grouped, and the later one is trashed: \<^verbatim>\<open>processFolder\<close> never reads the filter.
\<close>

theorem age_filter_not_applied:
  "0 < FILE_AGE_FILTER_DAYS ageFilterConfig
   \<and> getDateCreated (oldFiles ! 0) < dayHundred - FILE_AGE_FILTER_MS ageFilterConfig
   \<and> getDateCreated (oldFiles ! 1) < dayHundred - FILE_AGE_FILTER_MS ageFilterConfig
   \<and> hashLookups (processFolder oldFiles ageFilterConfig) = [''OLD1'', ''OLD2'']
   \<and> filesAnalyzed (processFolder oldFiles ageFilterConfig) = 2
   \<and> filesSkipped (processFolder oldFiles ageFilterConfig) = 0
   \<and> trashCalls (processFolder oldFiles ageFilterConfig) = [''OLD2'']"
  by code_simp

lemma processFolders_calls:
  "\<forall>c \<in> set (phaseCalls st). \<exists>x. c = CallProcessFolder x \<Longrightarrow>
   \<forall>c \<in> set (phaseCalls (processFolders env config folders st)). \<exists>x. c = CallProcessFolder x"
proof (induction folders arbitrary: st)
  case Nil
  then show ?case by simp
next
  case (Cons a folders)
  show ?case
  proof (cases "elapsedAt env (folderId (infoFolder a)) > MAX_EXECUTION_TIME_MS config")
    case True
    then show ?thesis using Cons.prems by simp
  next
    case False
    show ?thesis
      using False Cons.prems by (simp add: Let_def) (rule Cons.IH, simp)
  qed
qed

lemma processRootFolder_calls:
  "\<forall>c \<in> set (phaseCalls (processRootFolder env rootFolder config)). \<exists>x. c = CallProcessFolder x"
  unfolding processRootFolder_def Let_def
  by (rule processFolders_calls) simp

lemma processRoots_calls:
  "\<forall>c \<in> set (phaseCalls st). \<exists>x. c = CallProcessFolder x \<Longrightarrow>
   \<forall>c \<in> set (phaseCalls (processRoots env config roots st)). \<exists>x. c = CallProcessFolder x"
proof (induction roots arbitrary: st)
  case Nil
  then show ?case by simp
next
  case (Cons r roots)
  show ?case
  proof (cases "getFolderById env r")
    case None
    then show ?thesis using Cons by simp
  next
    case (Some rootFolder)
    show ?thesis
      using Cons.prems processRootFolder_calls [of env rootFolder config]
      by (auto simp: Some Let_def intro!: Cons.IH)
  qed
qed

lemma merge_phase_never_called:
  assumes "cleanDuplicateAttachments env props = Inr r"
  shows "CallMergeDuplicateFolders root \<notin> set (phaseCalls r)"
proof -
  have "\<forall>c \<in> set (phaseCalls r). \<exists>x. c = CallProcessFolder x"
    using assms
    by (auto simp: cleanDuplicateAttachments_def split: sum.splits intro!: processRoots_calls)
  then show ?thesis by auto
qed

text \<open>
  C5 at a failing input. With folder merging enabled and a root that holds two sibling
  folders of one name, \<^verbatim>\<open>cleanDuplicateAttachments\<close> runs \<^verbatim>\<open>processFolder\<close> on both
  folders, most recently updated first, and the merge pass not at all; no store call is
  issued.
\<close>

theorem dedup_runs_without_merge_phase:
  "MERGE_DUPLICATE_FOLDERS mergingConfig
   \<and> map_sum id phaseCalls (cleanDuplicateAttachments acmeDrive mergingConfig)
       = Inr [CallProcessFolder ''F2'', CallProcessFolder ''F1'']
   \<and> map_sum id trashed (cleanDuplicateAttachments acmeDrive mergingConfig) = Inr []"
  by code_simp

end
